theory Spec2Isabelle
  imports Main "HOL-Library.Word"
begin

section \<open>Stage 2 of the JSON parser: the structural parser\<close>

text \<open>
  The development embeds \<^verbatim>\<open>src/generic/stage2/structural_parser.h\<close>: the member
  function \<^verbatim>\<open>structural_parser::parse\<close>, a state machine written with labels and
  \<^verbatim>\<open>goto\<close>, its static entry point, and \<^verbatim>\<open>finish\<close>. The calls of the logger
  are left out: they write to a side channel and no branch depends on them.
\<close>

subsection \<open>Data\<close>

text \<open>
  Modelled from the spec: the enumeration \<^verbatim>\<open>error_code\<close> is declared in a header
  that is missing from the source tree; these are the codes of the spec's error-code
  surface.
\<close>

datatype error_code =
  SUCCESS | EMPTY | TAPE_ERROR | INCORRECT_TYPE | NUMBER_ERROR | STRING_ERROR
  | UTF8_ERROR | DEPTH_ERROR

text \<open>
  Modelled from the spec: the declaration of \<^verbatim>\<open>dom_parser_implementation\<close> is
  missing from the source tree. The record has the four members the driver reads or writes: the
  padded input buffer, the array of structural offsets as it is allocated (it may be
  longer than \<^verbatim>\<open>n_structural_indexes\<close>: Stage 1 leaves sentinel entries behind the
  last real one), the number of structurals and the index kept between streaming calls.
\<close>

record dom_parser_implementation =
  buf :: string
  structural_indexes :: "32 word list"
  n_structural_indexes :: "32 word"
  next_structural_index :: "32 word"

text \<open>
  \<^verbatim>\<open>struct structural_parser : structural_iterator\<close>. The pointer
  \<^verbatim>\<open>next_structural\<close> into the offset array is its element index; \<^verbatim>\<open>depth\<close> is
  a \<^verbatim>\<open>uint32_t\<close>. The iterator's \<^verbatim>\<open>buf\<close> is the buffer of \<^verbatim>\<open>dom_parser\<close>.
\<close>

record structural_parser =
  dom_parser :: dom_parser_implementation
  next_structural :: nat
  depth :: "32 word"

text \<open>
  The builder is the template parameter \<^verbatim>\<open>T\<close>. Each of its member functions the
  driver calls is a constructor of \<open>event\<close>, with the pointer arguments (offsets into
  the buffer) it is called with; \<open>try_resume_array_value\<close> is the overload of
  \<^verbatim>\<open>try_resume_array\<close> with a value pointer. A builder gets the parser by
  reference, so a callback maps the builder's own state and the parser to an error code
  and both, updated. Nothing restricts what a callback does to the parser: a statement
  for every builder covers also what no C++ builder could do, and the statements that
  need a well-behaved builder say so (\<open>keeps_iterator\<close>, \<open>keeps_depth\<close>,
  \<open>accepts\<close> below).
\<close>

datatype event =
  start_document
  | root_primitive nat
  | start_object
  | end_object
  | empty_object
  | start_object_field nat
  | empty_object_field nat
  | primitive_field nat nat
  | start_array
  | end_array
  | empty_array
  | empty_array_field nat
  | start_array_field nat
  | primitive nat
  | try_resume_object
  | try_resume_array
  | try_resume_array_value nat
  | try_end_object
  | try_end_array
  | end_document

type_synonym 'b builder =
  "event \<Rightarrow> 'b \<Rightarrow> structural_parser \<Rightarrow> error_code \<times> 'b \<times> structural_parser"

text \<open>The labels of \<^verbatim>\<open>parse\<close>.\<close>

datatype label =
  generic_object_begin
  | object_colon
  | object_value
  | object_next
  | generic_array_begin
  | array_value
  | array_next
  | generic_next
  | document_end

text \<open>
  What an observer of one call sees, in order: every value the driver writes to the
  cursor, and every builder callback with the code it returned. The trace is a history
  variable: the driver appends to it and no branch reads it.
\<close>

datatype action = Cursor nat | Call event error_code

text \<open>
  The state of a running \<^verbatim>\<open>parse\<close>: the parser object, the builder's state, the
  local \<^verbatim>\<open>value\<close> (an offset into the buffer; it is assigned before every read)
  and the trace.
\<close>

record 'b config =
  parser :: structural_parser
  builder :: 'b
  value_p :: nat
  trace :: "action list"

text \<open>
  One block of the state machine ends in a jump, in a \<^verbatim>\<open>return\<close>, or in a read
  outside the offset array or the buffer, which C++ leaves undefined.
\<close>

datatype 'b outcome =
  Goto label "'b config"
  | Return error_code "'b config"
  | Fault "'b config"

subsection \<open>The structural iterator\<close>

text \<open>
  Modelled from the spec: the header \<^verbatim>\<open>structural_iterator.h\<close> is missing from the
  source tree.
  \<^verbatim>\<open>advance()\<close> returns a pointer to the byte at \<^verbatim>\<open>buf[indexes[cursor]]\<close>, then
  increments the cursor; \<^verbatim>\<open>advance_char()\<close> is the same but returns the byte;
  \<^verbatim>\<open>at_end()\<close> is true iff the cursor equals \<^verbatim>\<open>n_structural_indexes\<close>. The
  operations take the rest of the block as a continuation.
\<close>

definition at_end :: "structural_parser \<Rightarrow> bool" where
  "at_end p = (next_structural p = unat (n_structural_indexes (dom_parser p)))"

definition advance :: "'b config \<Rightarrow> (nat \<Rightarrow> 'b config \<Rightarrow> 'b outcome) \<Rightarrow> 'b outcome" where
  "advance c k =
     (let p = parser c; i = next_structural p; idx = structural_indexes (dom_parser p)
      in if i < length idx
         then k (unat (idx ! i))
                (c\<lparr>parser := p\<lparr>next_structural := i + 1\<rparr>,
                   trace := trace c @ [Cursor (i + 1)]\<rparr>)
         else Fault c)"

text \<open>Reading the byte a pointer into the buffer points to.\<close>

definition deref :: "'b config \<Rightarrow> nat \<Rightarrow> (char \<Rightarrow> 'b outcome) \<Rightarrow> 'b outcome" where
  "deref c off k =
     (let b = buf (dom_parser (parser c))
      in if off < length b then k (b ! off) else Fault c)"

text \<open>\<^verbatim>\<open>*(value = advance())\<close>\<close>

definition advance_value :: "'b config \<Rightarrow> (char \<Rightarrow> 'b config \<Rightarrow> 'b outcome) \<Rightarrow> 'b outcome" where
  "advance_value c k =
     advance c (\<lambda>off c1. deref c1 off (\<lambda>ch. k ch (c1\<lparr>value_p := off\<rparr>)))"

definition advance_char :: "'b config \<Rightarrow> (char \<Rightarrow> 'b config \<Rightarrow> 'b outcome) \<Rightarrow> 'b outcome" where
  "advance_char c k = advance c (\<lambda>off c1. deref c1 off (\<lambda>ch. k ch c1))"

text \<open>
  \<^verbatim>\<open>next_structural--\<close>. The driver does it right after an \<^verbatim>\<open>advance_char()\<close>,
  where the cursor is at least 1.
\<close>

definition back_up :: "'b config \<Rightarrow> 'b config" where
  "back_up c =
     (let p = parser c; i = next_structural p
      in c\<lparr>parser := p\<lparr>next_structural := i - 1\<rparr>, trace := trace c @ [Cursor (i - 1)]\<rparr>)"

subsection \<open>Calling the builder\<close>

text \<open>
  Modelled from the spec: the definition of the macro \<^verbatim>\<open>SIMDJSON_TRY\<close> is missing
  from the source tree. It evaluates the call and returns its code from the enclosing function when the
  code is not \<^verbatim>\<open>SUCCESS\<close> (``any non-success short-circuits the driver'').
\<close>

definition SIMDJSON_TRY ::
  "'b builder \<Rightarrow> event \<Rightarrow> 'b config \<Rightarrow> ('b config \<Rightarrow> 'b outcome) \<Rightarrow> 'b outcome" where
  "SIMDJSON_TRY b ev c k =
     (case b ev (builder c) (parser c) of
        (e, s', p') \<Rightarrow>
          let c' = c\<lparr>parser := p', builder := s', trace := trace c @ [Call ev e]\<rparr>
          in if e \<noteq> SUCCESS then Return e c' else k c')"

subsection \<open>finish\<close>

definition finish :: "bool \<Rightarrow> structural_parser \<Rightarrow> error_code \<times> structural_parser" where
  "finish STREAMING p =
     (let p' = p\<lparr>dom_parser :=
                  (dom_parser p)\<lparr>next_structural_index := word_of_nat (next_structural p)\<rparr>\<rparr>
      in if depth p' \<noteq> 0 then (TAPE_ERROR, p')
         else if \<not> STREAMING
                 \<and> next_structural_index (dom_parser p') \<noteq> n_structural_indexes (dom_parser p')
         then (TAPE_ERROR, p')
         else (SUCCESS, p'))"

subsection \<open>The blocks of parse\<close>

text \<open>
  The start of \<^verbatim>\<open>parse\<close>, up to the first jump. For a top-level array and
  \<^verbatim>\<open>!STREAMING\<close> it reads
  \<^verbatim>\<open>buf[structural_indexes[n_structural_indexes - 1]]\<close>, the subtraction in
  \<^verbatim>\<open>uint32_t\<close>.
\<close>

definition last_structural :: "'b config \<Rightarrow> (char \<Rightarrow> 'b outcome) \<Rightarrow> 'b outcome" where
  "last_structural c k =
     (let dp = dom_parser (parser c); i = unat (n_structural_indexes dp - 1)
      in if i < length (structural_indexes dp)
         then deref c (unat (structural_indexes dp ! i)) k
         else Fault c)"

definition parse_begin :: "bool \<Rightarrow> 'b builder \<Rightarrow> 'b config \<Rightarrow> 'b outcome" where
  "parse_begin STREAMING b c =
     (if at_end (parser c) then Return EMPTY c
      else SIMDJSON_TRY b start_document c (\<lambda>c.
        advance_value c (\<lambda>ch c.
          if ch = CHR ''{'' then Goto generic_object_begin c
          else if ch = CHR ''['' then
            (if \<not> STREAMING
             then last_structural c (\<lambda>l.
                    if l \<noteq> CHR '']'' then Return TAPE_ERROR c
                    else Goto generic_array_begin c)
             else Goto generic_array_begin c)
          else SIMDJSON_TRY b (root_primitive (value_p c)) c (Goto document_end))))"

definition do_generic_object_begin :: "'b builder \<Rightarrow> 'b config \<Rightarrow> 'b outcome" where
  "do_generic_object_begin b c =
     advance_value c (\<lambda>ch c.
       if ch = CHR ''}'' then SIMDJSON_TRY b empty_object c (Goto generic_next)
       else if ch = CHR 0x22 then SIMDJSON_TRY b start_object c (Goto object_colon)
       else Return TAPE_ERROR c)"

text \<open>\<^verbatim>\<open>object_colon\<close> falls through to \<^verbatim>\<open>object_value\<close>.\<close>

definition do_object_colon :: "'b config \<Rightarrow> 'b outcome" where
  "do_object_colon c =
     advance_char c (\<lambda>ch c.
       if ch \<noteq> CHR '':'' then Return TAPE_ERROR c else Goto object_value c)"

definition do_object_value :: "'b builder \<Rightarrow> 'b config \<Rightarrow> 'b outcome" where
  "do_object_value b c =
     (let key = value_p c
      in advance_value c (\<lambda>ch c.
           if ch = CHR ''{'' then
             advance_value c (\<lambda>ch c.
               if ch = CHR ''}'' then SIMDJSON_TRY b (empty_object_field key) c (Goto object_next)
               else if ch = CHR 0x22
               then SIMDJSON_TRY b (start_object_field key) c (Goto object_colon)
               else Return TAPE_ERROR c)
           else if ch = CHR ''['' then
             advance_value c (\<lambda>ch c.
               if ch = CHR '']'' then SIMDJSON_TRY b (empty_array_field key) c (Goto object_next)
               else SIMDJSON_TRY b (start_array_field key) c (Goto array_value))
           else SIMDJSON_TRY b (primitive_field key (value_p c)) c (Goto object_next)))"

definition do_object_next :: "'b builder \<Rightarrow> 'b config \<Rightarrow> 'b outcome" where
  "do_object_next b c =
     advance_char c (\<lambda>ch c.
       if ch = CHR '','' then
         advance_value c (\<lambda>ch c.
           if ch \<noteq> CHR 0x22 then Return TAPE_ERROR c else Goto object_colon c)
       else if ch = CHR ''}'' then SIMDJSON_TRY b end_object c (Goto generic_next)
       else Return TAPE_ERROR c)"

definition do_generic_array_begin :: "'b builder \<Rightarrow> 'b config \<Rightarrow> 'b outcome" where
  "do_generic_array_begin b c =
     advance_value c (\<lambda>ch c.
       if ch = CHR '']'' then SIMDJSON_TRY b empty_array c (Goto generic_next)
       else SIMDJSON_TRY b start_array c (Goto array_value))"

definition do_array_value :: "'b builder \<Rightarrow> 'b config \<Rightarrow> 'b outcome" where
  "do_array_value b c =
     deref c (value_p c) (\<lambda>ch.
       if ch = CHR ''{'' then
         advance_value c (\<lambda>ch c.
           if ch = CHR ''}'' then SIMDJSON_TRY b empty_object c (Goto array_next)
           else if ch = CHR 0x22 then SIMDJSON_TRY b start_object c (Goto object_colon)
           else Return TAPE_ERROR c)
       else if ch = CHR ''['' then
         advance_value c (\<lambda>ch c.
           if ch = CHR '']'' then SIMDJSON_TRY b empty_array c (Goto array_next)
           else SIMDJSON_TRY b start_array c (Goto array_value))
       else SIMDJSON_TRY b (primitive (value_p c)) c (Goto array_next))"

definition do_array_next :: "'b builder \<Rightarrow> 'b config \<Rightarrow> 'b outcome" where
  "do_array_next b c =
     advance_char c (\<lambda>ch c.
       if ch = CHR '','' then advance c (\<lambda>off c. Goto array_value (c\<lparr>value_p := off\<rparr>))
       else if ch = CHR '']'' then SIMDJSON_TRY b end_array c (Goto generic_next)
       else Return TAPE_ERROR c)"

definition do_generic_next :: "'b builder \<Rightarrow> 'b config \<Rightarrow> 'b outcome" where
  "do_generic_next b c =
     advance_char c (\<lambda>ch c.
       if ch = CHR '','' then
         advance_value c (\<lambda>ch c.
           if ch = CHR 0x22 then
             advance_char c (\<lambda>ch c.
               if ch = CHR '':'' then SIMDJSON_TRY b try_resume_object c (Goto object_value)
               else if ch = CHR '',''
               then SIMDJSON_TRY b (try_resume_array_value (value_p c)) c (Goto array_value)
               else if ch = CHR '']''
               then SIMDJSON_TRY b (try_resume_array_value (value_p c)) c (\<lambda>c.
                      SIMDJSON_TRY b end_array c (Goto generic_next))
               else Return TAPE_ERROR c)
           else if ch = CHR ''['' then SIMDJSON_TRY b try_resume_array c (Goto generic_array_begin)
           else if ch = CHR ''{'' then SIMDJSON_TRY b try_resume_array c (Goto generic_object_begin)
           else SIMDJSON_TRY b try_resume_array c (Goto array_value))
       else if ch = CHR '']'' then SIMDJSON_TRY b try_end_array c (Goto generic_next)
       else if ch = CHR ''}'' then SIMDJSON_TRY b try_end_object c (Goto generic_next)
       else Goto document_end (back_up c))"

definition do_document_end :: "bool \<Rightarrow> 'b builder \<Rightarrow> 'b config \<Rightarrow> 'b outcome" where
  "do_document_end STREAMING b c =
     SIMDJSON_TRY b end_document c (\<lambda>c.
       case finish STREAMING (parser c) of (e, p') \<Rightarrow> Return e (c\<lparr>parser := p'\<rparr>))"

text \<open>The block at a label.\<close>

fun step :: "bool \<Rightarrow> 'b builder \<Rightarrow> label \<Rightarrow> 'b config \<Rightarrow> 'b outcome" where
  "step STREAMING b generic_object_begin c = do_generic_object_begin b c"
| "step STREAMING b object_colon c = do_object_colon c"
| "step STREAMING b object_value c = do_object_value b c"
| "step STREAMING b object_next c = do_object_next b c"
| "step STREAMING b generic_array_begin c = do_generic_array_begin b c"
| "step STREAMING b array_value c = do_array_value b c"
| "step STREAMING b array_next c = do_array_next b c"
| "step STREAMING b generic_next c = do_generic_next b c"
| "step STREAMING b document_end c = do_document_end STREAMING b c"

subsection \<open>Running the state machine\<close>

text \<open>
  A builder may move the cursor, so the jumps need not end: \<open>run\<close> follows at most
  \<open>fuel\<close> jumps and is \<open>None\<close> when they are used up.
\<close>

fun run :: "nat \<Rightarrow> bool \<Rightarrow> 'b builder \<Rightarrow> label \<Rightarrow> 'b config \<Rightarrow> 'b outcome option" where
  "run 0 STREAMING b l c = None"
| "run (Suc fuel) STREAMING b l c =
     (case step STREAMING b l c of
        Goto l' c' \<Rightarrow> run fuel STREAMING b l' c'
      | Return e c' \<Rightarrow> Some (Return e c')
      | Fault c' \<Rightarrow> Some (Fault c'))"

text \<open>\<^verbatim>\<open>template<bool STREAMING, typename T> error_code parse(T &builder)\<close>\<close>

definition parse :: "nat \<Rightarrow> bool \<Rightarrow> 'b builder \<Rightarrow> 'b config \<Rightarrow> 'b outcome option" where
  "parse fuel STREAMING b c =
     (case parse_begin STREAMING b c of
        Goto l c' \<Rightarrow> run fuel STREAMING b l c'
      | Return e c' \<Rightarrow> Some (Return e c')
      | Fault c' \<Rightarrow> Some (Fault c'))"

text \<open>
  The static \<^verbatim>\<open>parse(dom_parser, builder)\<close>: a fresh parser, at depth 0, whose
  cursor starts at \<^verbatim>\<open>dom_parser.next_structural_index\<close> when streaming and at 0
  otherwise.
\<close>

definition new_parser :: "bool \<Rightarrow> dom_parser_implementation \<Rightarrow> structural_parser" where
  "new_parser STREAMING dp =
     \<lparr>dom_parser = dp,
      next_structural = (if STREAMING then unat (next_structural_index dp) else 0),
      depth = 0\<rparr>"

definition parse_static ::
  "nat \<Rightarrow> bool \<Rightarrow> 'b builder \<Rightarrow> 'b \<Rightarrow> dom_parser_implementation \<Rightarrow> 'b outcome option" where
  "parse_static fuel STREAMING b s dp =
     parse fuel STREAMING b
       \<lparr>parser = new_parser STREAMING dp, builder = s, value_p = 0, trace = []\<rparr>"

subsection \<open>Reading outcomes and traces\<close>

fun outcome_config :: "'b outcome \<Rightarrow> 'b config" where
  "outcome_config (Goto l c) = c"
| "outcome_config (Return e c) = c"
| "outcome_config (Fault c) = c"

text \<open>The code a call returned, if it returned.\<close>

fun returned :: "'b outcome \<Rightarrow> error_code option" where
  "returned (Return e c) = Some e"
| "returned (Goto l c) = None"
| "returned (Fault c) = None"

text \<open>The callbacks of a trace, and the cursor values of a trace, in order.\<close>

fun events :: "action list \<Rightarrow> event list" where
  "events [] = []"
| "events (Cursor n # t) = events t"
| "events (Call ev e # t) = ev # events t"

fun cursors :: "action list \<Rightarrow> nat list" where
  "cursors [] = []"
| "cursors (Cursor n # t) = n # cursors t"
| "cursors (Call ev e # t) = cursors t"

text \<open>Every callback of the trace returned \<^verbatim>\<open>SUCCESS\<close>.\<close>

definition calls_ok :: "action list \<Rightarrow> bool" where
  "calls_ok t = (\<forall>ev e. Call ev e \<in> set t \<longrightarrow> e = SUCCESS)"

text \<open>From \<open>i\<close>, every value is the one before plus one.\<close>

fun ascending :: "nat \<Rightarrow> nat list \<Rightarrow> bool" where
  "ascending i [] = True"
| "ascending i (x # xs) = (x = Suc i \<and> ascending x xs)"

text \<open>The byte of the \<open>i\<close>-th structural, when both reads are in range.\<close>

definition structural_byte :: "dom_parser_implementation \<Rightarrow> nat \<Rightarrow> char option" where
  "structural_byte dp i =
     (if i < length (structural_indexes dp)
         \<and> unat (structural_indexes dp ! i) < length (buf dp)
      then Some (buf dp ! unat (structural_indexes dp ! i))
      else None)"

subsection \<open>Builders\<close>

text \<open>
  A builder that leaves the iterator's members alone: the cursor and the members of
  \<^verbatim>\<open>dom_parser\<close> the driver uses.
\<close>

definition keeps_iterator :: "'b builder \<Rightarrow> bool" where
  "keeps_iterator b =
     (\<forall>ev s p. next_structural (snd (snd (b ev s p))) = next_structural p
              \<and> dom_parser (snd (snd (b ev s p))) = dom_parser p)"

text \<open>A builder that never changes the parser's \<^verbatim>\<open>depth\<close>.\<close>

definition keeps_depth :: "'b builder \<Rightarrow> bool" where
  "keeps_depth b = (\<forall>ev s p. depth (snd (snd (b ev s p))) = depth p)"

text \<open>The builder that does nothing and accepts everything.\<close>

definition noop_builder :: "unit builder" where
  "noop_builder ev s p = (SUCCESS, s, p)"

text \<open>
  Modelled from the spec: the tape builder is missing from the source tree. This builder
  keeps only the nesting depth, as the spec's data model has it: ``incremented on each
  entered container, decremented on each closed container''. It accepts everything.
\<close>

fun depth_change :: "event \<Rightarrow> 32 word \<Rightarrow> 32 word" where
  "depth_change start_object d = d + 1"
| "depth_change (start_object_field k) d = d + 1"
| "depth_change start_array d = d + 1"
| "depth_change (start_array_field k) d = d + 1"
| "depth_change end_object d = d - 1"
| "depth_change end_array d = d - 1"
| "depth_change try_end_object d = d - 1"
| "depth_change try_end_array d = d - 1"
| "depth_change ev d = d"

definition depth_builder :: "unit builder" where
  "depth_builder ev s p = (SUCCESS, s, p\<lparr>depth := depth_change ev (depth p)\<rparr>)"


subsection \<open>Inputs\<close>

text \<open>
  Modelled from the spec: Stage 1 is missing from the source tree. Its product for a
  document \<open>json\<close> whose structurals are at the offsets \<open>offs\<close>: the buffer followed by
  64 padding bytes, and the offsets followed by one more entry that points at the first
  padding byte, so that ``\<^verbatim>\<open>advance()\<close> after the last real index is safe to
  dereference (returns sentinel)''.
\<close>

definition indexed :: "string \<Rightarrow> nat list \<Rightarrow> dom_parser_implementation" where
  "indexed json offs =
     \<lparr>buf = json @ replicate 64 (CHR 0x00),
      structural_indexes = map word_of_nat offs @ [word_of_nat (length json)],
      n_structural_indexes = word_of_nat (length offs),
      next_structural_index = 0\<rparr>"

subsection \<open>Shapes of traces\<close>


text \<open>The callbacks and the returned code of a call that may have run out of fuel.\<close>

fun emitted :: "'b outcome option \<Rightarrow> event list" where
  "emitted None = []"
| "emitted (Some out) = events (trace (outcome_config out))"

fun result :: "'b outcome option \<Rightarrow> error_code option" where
  "result None = None"
| "result (Some out) = returned out"

text \<open>
  The trace ends in a back-up by one, to the \<open>i\<close>-th structural, after cursor moves that
  went up one by one from \<open>i0\<close>; the byte of that structural is none of the three that
  continue a container.
\<close>

definition backed_up :: "dom_parser_implementation \<Rightarrow> nat \<Rightarrow> action list \<Rightarrow> bool" where
  "backed_up dp i0 tr =
     (\<exists>t i ch. tr = t @ [Cursor (Suc i), Cursor i]
        \<and> ascending i0 (cursors t @ [Suc i])
        \<and> structural_byte dp i = Some ch
        \<and> ch \<notin> {CHR '','', CHR '']'', CHR ''}''})"

text \<open>The documents of the spec's scenarios 1 and 6, as Stage 1 hands them over.\<close>

definition doc_object :: dom_parser_implementation where
  \<open>doc_object =
     indexed ''{"a":1,"b":[true,null]}'' [0, 1, 4, 5, 6, 7, 10, 11, 12, 16, 17, 21, 22]\<close>

definition doc_stream :: dom_parser_implementation where
  "doc_stream = indexed ''1 2 3'' [0, 2, 4]"

subsection \<open>JSON values as the driver sees them\<close>

text \<open>
  A JSON value at the level of structurals: a primitive (a string, a number or a literal)
  is one structural, named by its first byte; an array is its elements between brackets,
  an object its fields between braces, separated by commas; a field is a key (a string,
  so the byte \<^verbatim>\<open>"\<close>), a colon and a value. \<open>tokens\<close> is the sequence of structural bytes
  of a value.
\<close>

datatype json = Prim char | Arr "json list" | Obj "json list"

fun sep :: "string list \<Rightarrow> string" where
  "sep [] = []"
| "sep [x] = x"
| "sep (x # y # ys) = x @ CHR '','' # sep (y # ys)"

fun tokens :: "json \<Rightarrow> string" where
  "tokens (Prim c) = [c]"
| "tokens (Arr vs) = CHR ''['' # sep (map tokens vs) @ [CHR '']'']"
| "tokens (Obj vs) =
     CHR ''{'' # sep (map (\<lambda>v. CHR 0x22 # CHR '':'' # tokens v) vs) @ [CHR ''}'']"

fun is_container :: "json \<Rightarrow> bool" where
  "is_container (Prim c) = False"
| "is_container (Arr vs) = True"
| "is_container (Obj vs) = True"

text \<open>A primitive or an empty container: the driver knows the enclosing scope after it.\<close>

fun simple :: "json \<Rightarrow> bool" where
  "simple (Prim c) = True"
| "simple (Arr vs) = (vs = [])"
| "simple (Obj vs) = (vs = [])"

text \<open>
  The elements of an array are read at one of two places. The first element, and every
  element after one that ended at \<^verbatim>\<open>array_next\<close>, is read at \<^verbatim>\<open>array_value\<close>. An
  element after one that ended at \<^verbatim>\<open>generic_next\<close> is read by \<^verbatim>\<open>generic_next\<close>
  itself. \<open>no_slip g vs\<close> follows the elements \<open>vs\<close> from left to right, \<open>g\<close> telling
  whether the first of them is read by \<^verbatim>\<open>generic_next\<close>:

    \<^item> an element read at \<^verbatim>\<open>array_value\<close> ends at \<^verbatim>\<open>array_next\<close> when it is a
      primitive or an empty container, and at \<^verbatim>\<open>generic_next\<close> otherwise;
    \<^item> an element read by \<^verbatim>\<open>generic_next\<close> ends at \<^verbatim>\<open>generic_next\<close> when it is a
      container (empty or not), and at \<^verbatim>\<open>array_next\<close> when it is a primitive other
      than a string;
    \<^item> a string read by \<^verbatim>\<open>generic_next\<close> that is the last element closes the array.

  The one case that is left, and the only one \<open>no_slip\<close> rules out, is a string read by
  \<^verbatim>\<open>generic_next\<close> with an element after it: there \<^verbatim>\<open>generic_next\<close> has read the
  comma behind the string when it jumps to \<^verbatim>\<open>array_value\<close>, and \<^verbatim>\<open>array_next\<close>
  finds the first structural of the next element where it looks for a comma.
\<close>

fun no_slip :: "bool \<Rightarrow> json list \<Rightarrow> bool" where
  "no_slip g (v # w # ws) =
     (\<not> (g \<and> v = Prim (CHR 0x22))
      \<and> no_slip (if g then is_container v else \<not> simple v) (w # ws))"
| "no_slip g vs = True"

text \<open>
  The values considered: the byte of a primitive is not one of the six bytes of the
  grammar, and the elements of every array, the first of which is read at
  \<^verbatim>\<open>array_value\<close>, are as \<open>no_slip\<close> says.
\<close>

fun proper :: "json \<Rightarrow> bool" where
  "proper (Prim c) =
     (c \<notin> {CHR ''{'', CHR ''}'', CHR ''['', CHR '']'', CHR '','', CHR '':''})"
| "proper (Arr vs) = ((\<forall>v \<in> set vs. proper v) \<and> no_slip False vs)"
| "proper (Obj vs) = (\<forall>v \<in> set vs. proper v)"

fun first_token :: "json \<Rightarrow> char" where
  "first_token (Prim c) = c"
| "first_token (Arr vs) = CHR ''[''"
| "first_token (Obj vs) = CHR ''{''"

text \<open>The structurals from the \<open>i\<close>-th on have the bytes \<open>ts\<close>.\<close>

fun toks :: "dom_parser_implementation \<Rightarrow> nat \<Rightarrow> string \<Rightarrow> bool" where
  "toks dp i [] = True"
| "toks dp i (t # ts) = (structural_byte dp i = Some t \<and> toks dp (Suc i) ts)"

subsection \<open>Builders that keep the nesting depth\<close>

text \<open>
  The callbacks that open a scope and those that close one. \<open>nesting up down\<close> is what a
  builder does to the depth when it goes \<open>up\<close> at the first and \<open>down\<close> at the second and
  leaves the depth alone at every other callback.
\<close>

fun opens :: "event \<Rightarrow> bool" where
  "opens start_object = True"
| "opens (start_object_field k) = True"
| "opens start_array = True"
| "opens (start_array_field k) = True"
| "opens ev = False"

fun closes :: "event \<Rightarrow> bool" where
  "closes end_object = True"
| "closes end_array = True"
| "closes try_end_object = True"
| "closes try_end_array = True"
| "closes ev = False"

definition nesting ::
  "(32 word \<Rightarrow> 32 word) \<Rightarrow> (32 word \<Rightarrow> 32 word) \<Rightarrow> event \<Rightarrow> 32 word \<Rightarrow> 32 word" where
  "nesting up down ev d = (if opens ev then up d else if closes ev then down d else d)"

text \<open>
  \<open>follows up down b\<close>: the builder \<open>b\<close> accepts every callback, leaves the iterator as it
  is, and keeps the depth by \<open>up\<close> and \<open>down\<close>, where \<open>down\<close> undoes \<open>up\<close>. A builder
  \<open>accepts\<close> when it does so for some \<open>up\<close> and \<open>down\<close>. The builder that leaves the parser
  alone is one (both are the identity), and so is the builder that counts the open scopes
  (\<open>up\<close> adds one, \<open>down\<close> subtracts one).
\<close>

definition follows ::
  "(32 word \<Rightarrow> 32 word) \<Rightarrow> (32 word \<Rightarrow> 32 word) \<Rightarrow> 'b builder \<Rightarrow> bool" where
  "follows up down b =
     ((\<forall>d. down (up d) = d)
      \<and> (\<forall>ev s p. fst (b ev s p) = SUCCESS
            \<and> snd (snd (b ev s p)) = p\<lparr>depth := nesting up down ev (depth p)\<rparr>))"

definition accepts :: "'b builder \<Rightarrow> bool" where
  "accepts b = (\<exists>up down. follows up down b)"

subsection \<open>Walks of the state machine\<close>

text \<open>
  The control state of the driver is a label, the cursor and the depth. At
  \<^verbatim>\<open>array_value\<close> the local \<^verbatim>\<open>value\<close> points to the structural before the cursor.
  \<open>moves\<close> is one jump from every state at a label, a cursor and a depth, \<open>reach\<close> any
  number of jumps.
\<close>

definition at_label ::
  "dom_parser_implementation \<Rightarrow> label \<Rightarrow> nat \<Rightarrow> 32 word \<Rightarrow> 'b config \<Rightarrow> bool" where
  "at_label dp l i d c =
     (dom_parser (parser c) = dp \<and> next_structural (parser c) = i \<and> depth (parser c) = d
      \<and> (l = array_value \<longrightarrow> 0 < i \<and> value_p c = unat (structural_indexes dp ! (i - 1))))"

definition moves ::
  "'b builder \<Rightarrow> dom_parser_implementation \<Rightarrow> label \<Rightarrow> nat \<Rightarrow> 32 word
     \<Rightarrow> label \<Rightarrow> nat \<Rightarrow> 32 word \<Rightarrow> bool" where
  "moves b dp l i d l' i' d' =
     (\<forall>c. at_label dp l i d c \<longrightarrow>
          (\<exists>c'. step True b l c = Goto l' c' \<and> at_label dp l' i' d' c'))"

inductive reach ::
  "'b builder \<Rightarrow> dom_parser_implementation \<Rightarrow> label \<Rightarrow> nat \<Rightarrow> 32 word
     \<Rightarrow> label \<Rightarrow> nat \<Rightarrow> 32 word \<Rightarrow> bool"
  for b :: "'b builder" and dp :: dom_parser_implementation where
  reach_refl: "reach b dp l i d l i d"
| reach_step: "moves b dp l i d l1 i1 d1 \<Longrightarrow> reach b dp l1 i1 d1 l2 i2 d2
               \<Longrightarrow> reach b dp l i d l2 i2 d2"

text \<open>
  Where the driver gets from the first structural of a value to the end of the value, at
  the depth it started from: entered as an array element, as the value of a field, and (a
  container) behind its opening bracket or brace.
\<close>

definition value_ok :: "'b builder \<Rightarrow> dom_parser_implementation \<Rightarrow> json \<Rightarrow> bool" where
  "value_ok b dp v =
     (\<forall>i d. toks dp i (tokens v) \<longrightarrow>
        reach b dp array_value (Suc i) d (if simple v then array_next else generic_next)
          (i + length (tokens v)) d
      \<and> reach b dp object_value i d (if simple v then object_next else generic_next)
          (i + length (tokens v)) d
      \<and> (\<forall>vs. v = Arr vs \<longrightarrow>
            reach b dp generic_array_begin (Suc i) d generic_next (i + length (tokens v)) d)
      \<and> (\<forall>vs. v = Obj vs \<longrightarrow>
            reach b dp generic_object_begin (Suc i) d generic_next (i + length (tokens v)) d))"

text \<open>The document of scenario 1 followed by a second top-level value.\<close>

definition doc_residual :: dom_parser_implementation where
  \<open>doc_residual =
     indexed ''{"a":1,"b":[true,null]} 7''
       [0, 1, 4, 5, 6, 7, 10, 11, 12, 16, 17, 21, 22, 24]\<close>

text \<open>
  An array with a string element after an empty array, and with one after a non-empty
  array, each followed by a second top-level value.
\<close>

definition doc_empty_array_string :: dom_parser_implementation where
  \<open>doc_empty_array_string = indexed ''[[],"a",2] 7'' [0, 1, 2, 3, 4, 7, 8, 9, 11]\<close>

definition doc_array_string :: dom_parser_implementation where
  \<open>doc_array_string = indexed ''[[1],"a",2] 7'' [0, 1, 2, 3, 4, 5, 8, 9, 10, 12]\<close>

section \<open>Properties\<close>

subsection \<open>Unfolding and evaluation\<close>


lemmas iter_defs = advance_def deref_def advance_value_def advance_char_def back_up_def
  SIMDJSON_TRY_def last_structural_def Let_def
lemmas block_defs = do_generic_object_begin_def do_object_colon_def do_object_value_def
  do_object_next_def do_generic_array_begin_def do_array_value_def do_array_next_def
  do_generic_next_def do_document_end_def

lemma run_numeral:
  "run (numeral k) st b l c =
     (case step st b l c of
        Goto l' c' \<Rightarrow> run (pred_numeral k) st b l' c'
      | Return e c' \<Rightarrow> Some (Return e c')
      | Fault c' \<Rightarrow> Some (Fault c'))"
  by (simp add: numeral_eq_Suc)

lemmas eval_defs = parse_static_def parse_def parse_begin_def new_parser_def at_end_def
  finish_def indexed_def iter_defs block_defs run_numeral

text \<open>An invariant of the jumps holds of whatever the run ends in.\<close>

lemma run_invariant:
  assumes "run fuel st b l c = Some out"
    and "J l c"
    and "\<And>l c l' c'. J l c \<Longrightarrow> step st b l c = Goto l' c' \<Longrightarrow> J l' c'"
    and "\<And>l c e c'. J l c \<Longrightarrow> step st b l c = Return e c' \<Longrightarrow> Q (Return e c')"
    and "\<And>l c c'. J l c \<Longrightarrow> step st b l c = Fault c' \<Longrightarrow> Q (Fault c')"
  shows "Q out"
  using assms(1,2)
proof (induction fuel arbitrary: l c)
  case 0
  then show ?case by simp
next
  case (Suc fuel)
  show ?case
  proof (cases "step st b l c")
    case (Goto l' c')
    with Suc.prems have "run fuel st b l' c' = Some out" by simp
    moreover have "J l' c'" using assms(3) Suc.prems(2) Goto by blast
    ultimately show ?thesis by (rule Suc.IH)
  next
    case (Return e c')
    with Suc.prems have "out = Return e c'" by simp
    then show ?thesis using assms(4) Suc.prems(2) Return by blast
  next
    case (Fault c')
    with Suc.prems have "out = Fault c'" by simp
    then show ?thesis using assms(5) Suc.prems(2) Fault by blast
  qed
qed

lemma run_Return_last_step:
  "run fuel st b l c = Some (Return e c') \<Longrightarrow> \<exists>l0 c0. step st b l0 c0 = Return e c'"
proof (induction fuel arbitrary: l c)
  case 0
  then show ?case by simp
next
  case (Suc fuel)
  then show ?case by (cases "step st b l c") auto
qed

subsection \<open>No structurals\<close>

text \<open>
  Claim C8. When the iterator is at its end as \<^verbatim>\<open>parse\<close> starts (in particular when
  there is no structural at all), the call returns \<^verbatim>\<open>EMPTY\<close> and the state is the
  one it started from: the trace has no new action, so no callback was called, not even
  \<^verbatim>\<open>start_document\<close>, and the builder's state is unchanged.
\<close>

theorem parse_at_end_returns_EMPTY:
  "at_end (parser c) \<Longrightarrow> parse fuel STREAMING b c = Some (Return EMPTY c)"
  by (simp add: parse_def parse_begin_def)

theorem parse_at_end_returns_EMPTY_witness:
  "at_end (new_parser False (indexed [] []))
   \<and> parse_static 0 False depth_builder () (indexed [] [])
       = Some (Return EMPTY \<lparr>parser = new_parser False (indexed [] []), builder = (),
                             value_p = 0, trace = []\<rparr>)"
proof -
  have h: "at_end (parser \<lparr>parser = new_parser False (indexed [] []), builder = (),
                           value_p = 0, trace = []\<rparr>)"
    by (simp add: at_end_def new_parser_def indexed_def)
  show ?thesis
    using h parse_at_end_returns_EMPTY [OF h, of 0 False depth_builder]
    by (simp add: parse_static_def)
qed

subsection \<open>The index finish writes\<close>

text \<open>
  Claim C10. Whatever \<^verbatim>\<open>finish\<close> returns, the parser it leaves has
  \<^verbatim>\<open>next_structural_index\<close> set to the cursor, also when it returns
  \<^verbatim>\<open>TAPE_ERROR\<close>, which it does exactly for a nonzero depth or, when not streaming,
  for a cursor that is not \<^verbatim>\<open>n_structural_indexes\<close>.
\<close>

theorem finish_writes_next_structural_index:
  "next_structural_index (dom_parser (snd (finish STREAMING p))) = word_of_nat (next_structural p)
   \<and> (fst (finish STREAMING p) = TAPE_ERROR \<longleftrightarrow>
        depth p \<noteq> 0
        \<or> (\<not> STREAMING \<and> word_of_nat (next_structural p) \<noteq> n_structural_indexes (dom_parser p)))"
  by (auto simp: finish_def Let_def)

theorem finish_writes_next_structural_index_witness:
  "next_structural_index
     (dom_parser (snd (finish False (new_parser False (indexed ''1 2'' [0, 2])
                                      \<lparr>next_structural := 1\<rparr>)))) = 1
   \<and> next_structural_index
       (dom_parser (new_parser False (indexed ''1 2'' [0, 2])\<lparr>next_structural := 1\<rparr>)) = 0
   \<and> fst (finish False (new_parser False (indexed ''1 2'' [0, 2])\<lparr>next_structural := 1\<rparr>))
       = TAPE_ERROR"
  using finish_writes_next_structural_index
          [of False "new_parser False (indexed ''1 2'' [0, 2])\<lparr>next_structural := 1\<rparr>"]
  by (simp add: new_parser_def indexed_def)

subsection \<open>A successful non-streaming call\<close>

lemma step_Return_SUCCESS:
  assumes "step False b l c = Return SUCCESS c'"
  shows "\<exists>p1. b end_document (builder c) (parser c) = (SUCCESS, builder c', p1)
        \<and> depth p1 = 0
        \<and> word_of_nat (next_structural p1) = n_structural_indexes (dom_parser p1)
        \<and> parser c' = p1\<lparr>dom_parser := (dom_parser p1)\<lparr>next_structural_index := word_of_nat (next_structural p1)\<rparr>\<rparr>
        \<and> trace c' = trace c @ [Call end_document SUCCESS]"
  using assms
  by (cases l; auto simp: iter_defs block_defs finish_def split: if_splits prod.splits)

lemma parse_begin_no_SUCCESS: "parse_begin st b c \<noteq> Return SUCCESS c'"
  by (auto simp: parse_begin_def iter_defs split: if_splits prod.splits)

text \<open>
  Claim C1. For every builder and every input: when the non-streaming \<^verbatim>\<open>parse\<close>
  returns \<^verbatim>\<open>SUCCESS\<close>, its last action was an \<^verbatim>\<open>end_document\<close> callback that
  returned \<^verbatim>\<open>SUCCESS\<close> and left the parser at depth 0 with the cursor at
  \<^verbatim>\<open>n_structural_indexes\<close>; the parser the call leaves has depth 0 and
  \<^verbatim>\<open>next_structural_index = n_structural_indexes\<close>.
\<close>

theorem parse_SUCCESS_depth_and_index:
  assumes "parse fuel False b c = Some (Return SUCCESS c')"
  shows "depth (parser c') = 0
       \<and> next_structural_index (dom_parser (parser c')) = n_structural_indexes (dom_parser (parser c'))
       \<and> (\<exists>s p p1 t. b end_document s p = (SUCCESS, builder c', p1)
             \<and> depth p1 = 0
             \<and> word_of_nat (next_structural p1) = n_structural_indexes (dom_parser p1)
             \<and> parser c' = p1\<lparr>dom_parser := (dom_parser p1)\<lparr>next_structural_index := word_of_nat (next_structural p1)\<rparr>\<rparr>
             \<and> trace c' = t @ [Call end_document SUCCESS])"
proof -
  from assms obtain l c1 where "run fuel False b l c1 = Some (Return SUCCESS c')"
    using parse_begin_no_SUCCESS [of False b c c']
    by (auto simp: parse_def split: outcome.splits)
  then obtain l0 c0 where "step False b l0 c0 = Return SUCCESS c'"
    using run_Return_last_step by blast
  from step_Return_SUCCESS [OF this] show ?thesis by auto
qed

theorem parse_SUCCESS_depth_and_index_witness:
  "\<exists>c'. parse_static 20 False depth_builder () (indexed ''[[1]]'' [0, 1, 2, 3, 4])
           = Some (Return SUCCESS c')
      \<and> depth (parser c') = 0
      \<and> next_structural_index (dom_parser (parser c')) = 5
      \<and> n_structural_indexes (dom_parser (parser c')) = 5"
proof -
  obtain c' where r: "parse_static 20 False depth_builder () (indexed ''[[1]]'' [0, 1, 2, 3, 4])
                        = Some (Return SUCCESS c')"
    and n: "n_structural_indexes (dom_parser (parser c')) = 5"
    by (simp add: eval_defs depth_builder_def nth_append)
  from parse_SUCCESS_depth_and_index [OF r [unfolded parse_static_def]] n r
  show ?thesis by auto
qed

subsection \<open>Errors of the builder\<close>

lemma calls_ok_append [simp]: "calls_ok (t @ u) = (calls_ok t \<and> calls_ok u)"
  by (auto simp: calls_ok_def)

lemma calls_ok_Cursor [simp]: "calls_ok (Cursor n # t) = calls_ok t"
  by (simp add: calls_ok_def)

lemma calls_ok_Call [simp]: "calls_ok (Call ev e # t) = (e = SUCCESS \<and> calls_ok t)"
  by (auto simp: calls_ok_def)

lemma calls_ok_Nil [simp]: "calls_ok []"
  by (simp add: calls_ok_def)








subsection \<open>The depth is the builder's\<close>

lemma SIMDJSON_TRY_proj:
  "SIMDJSON_TRY b ev c k =
     (if fst (b ev (builder c) (parser c)) \<noteq> SUCCESS
      then Return (fst (b ev (builder c) (parser c)))
             (c\<lparr>parser := snd (snd (b ev (builder c) (parser c))),
                builder := fst (snd (b ev (builder c) (parser c))),
                trace := trace c @ [Call ev (fst (b ev (builder c) (parser c)))]\<rparr>)
      else k (c\<lparr>parser := snd (snd (b ev (builder c) (parser c))),
                builder := fst (snd (b ev (builder c) (parser c))),
                trace := trace c @ [Call ev SUCCESS]\<rparr>))"
  by (simp add: SIMDJSON_TRY_def split: prod.splits)

lemmas proj_defs = advance_def deref_def advance_value_def advance_char_def back_up_def
  SIMDJSON_TRY_proj last_structural_def Let_def

lemma keeps_depthD [simp]: "keeps_depth b \<Longrightarrow> depth (snd (snd (b ev s p))) = depth p"
  by (simp add: keeps_depth_def)

lemma step_keeps_depth:
  "keeps_depth b \<Longrightarrow> step st b l c = out \<Longrightarrow> depth (parser (outcome_config out)) = depth (parser c)"
  by (cases l; auto simp: proj_defs block_defs finish_def split: if_splits)

lemma parse_begin_keeps_depth:
  "keeps_depth b \<Longrightarrow> parse_begin st b c = out \<Longrightarrow> depth (parser (outcome_config out)) = depth (parser c)"
  by (auto simp: proj_defs parse_begin_def split: if_splits)

lemma parse_keeps_depth:
  assumes "keeps_depth b" and "parse fuel st b c = Some out"
  shows "depth (parser (outcome_config out)) = depth (parser c)"
proof (cases "parse_begin st b c")
  case (Goto l c1)
  with assms have r: "run fuel st b l c1 = Some out" by (simp add: parse_def)
  have d: "depth (parser c1) = depth (parser c)"
    using parse_begin_keeps_depth [OF assms(1) Goto] by simp
  show ?thesis
    by (rule run_invariant [OF r, where J = "\<lambda>l c'. depth (parser c') = depth (parser c)"])
       (use d step_keeps_depth [OF assms(1)] in \<open>fastforce+\<close>)
next
  case (Return e c1)
  with assms parse_begin_keeps_depth [OF assms(1) Return] show ?thesis
    by (auto simp: parse_def)
next
  case (Fault c1)
  with assms parse_begin_keeps_depth [OF assms(1) Fault] show ?thesis
    by (auto simp: parse_def)
qed

lemma step_finish_TAPE_ERROR:
  assumes "step st b l c = Return TAPE_ERROR c'"
    and "trace c' = t @ [Call end_document SUCCESS]"
    and "depth (parser c') = 0"
  shows "\<not> st \<and> next_structural_index (dom_parser (parser c')) \<noteq> n_structural_indexes (dom_parser (parser c'))"
  using assms
  by (cases l; auto simp: iter_defs block_defs finish_def split: if_splits prod.splits)

text \<open>
  Claim C9. The driver never writes \<^verbatim>\<open>depth\<close>: with a builder that does not change
  the parser's depth, the depth is 0 in whatever state the static \<^verbatim>\<open>parse\<close> ends,
  and a \<^verbatim>\<open>TAPE_ERROR\<close> that \<^verbatim>\<open>finish\<close> returns (the last action is a successful
  \<^verbatim>\<open>end_document\<close>) comes from the residual-token check of the non-streaming mode,
  never from the depth check. The witness is the unclosed \<^verbatim>\<open>[[1]\<close>: the builder that
  does nothing lets it through, the builder that keeps the depth has it rejected.
\<close>

theorem driver_never_writes_depth:
  assumes "keeps_depth b" and "parse_static fuel STREAMING b s dp = Some out"
  shows "depth (parser (outcome_config out)) = 0
       \<and> (\<forall>t c'. out = Return TAPE_ERROR c' \<and> trace c' = t @ [Call end_document SUCCESS]
              \<longrightarrow> \<not> STREAMING
                \<and> next_structural_index (dom_parser (parser c'))
                    \<noteq> n_structural_indexes (dom_parser (parser c')))"
proof -
  have d: "depth (parser (outcome_config out)) = 0"
    using parse_keeps_depth [OF assms(1) assms(2) [unfolded parse_static_def]]
    by (simp add: new_parser_def)
  have "\<not> STREAMING \<and> next_structural_index (dom_parser (parser c'))
                    \<noteq> n_structural_indexes (dom_parser (parser c'))"
    if out: "out = Return TAPE_ERROR c'" and t: "trace c' = t @ [Call end_document SUCCESS]"
    for t c'
  proof -
    have "parse_begin STREAMING b \<lparr>parser = new_parser STREAMING dp, builder = s, value_p = 0, trace = []\<rparr> \<noteq> Return TAPE_ERROR c'"
      using t by (auto simp: iter_defs parse_begin_def split: if_splits prod.splits)
    with assms(2) out obtain l c1 where "run fuel STREAMING b l c1 = Some (Return TAPE_ERROR c')"
      by (auto simp: parse_static_def parse_def split: outcome.splits)
    then obtain l0 c0 where "step STREAMING b l0 c0 = Return TAPE_ERROR c'"
      using run_Return_last_step by blast
    from step_finish_TAPE_ERROR [OF this t] d out show ?thesis by simp
  qed
  with d show ?thesis by blast
qed

theorem driver_never_writes_depth_witness:
  "keeps_depth noop_builder
   \<and> (\<exists>c'. parse_static 20 False noop_builder () (indexed ''[[1]'' [0, 1, 2, 3])
              = Some (Return SUCCESS c')
         \<and> depth (parser c') = 0
         \<and> events (trace c') = [start_document, start_array, start_array, primitive 2,
                                 end_array, end_document])
   \<and> result (parse_static 20 False depth_builder () (indexed ''[[1]'' [0, 1, 2, 3]))
       = Some TAPE_ERROR"
proof -
  have k: "keeps_depth noop_builder"
    by (simp add: keeps_depth_def noop_builder_def)
  obtain c' where r: "parse_static 20 False noop_builder () (indexed ''[[1]'' [0, 1, 2, 3])
              = Some (Return SUCCESS c')"
    and t: "events (trace c') = [start_document, start_array, start_array, primitive 2,
                                 end_array, end_document]"
    by (simp add: eval_defs noop_builder_def nth_append)
  have d: "result (parse_static 20 False depth_builder () (indexed ''[[1]'' [0, 1, 2, 3]))
             = Some TAPE_ERROR"
    by (simp add: eval_defs depth_builder_def nth_append)
  from driver_never_writes_depth [OF k r] k r t d show ?thesis by simp
qed

subsection \<open>More fuel\<close>

lemma run_more_fuel:
  "run fuel st b l c = Some out \<Longrightarrow> run (fuel + k) st b l c = Some out"
proof (induction fuel arbitrary: l c)
  case 0
  then show ?case by simp
next
  case (Suc fuel)
  then show ?case by (cases "step st b l c") auto
qed

lemma parse_more_fuel:
  "parse fuel st b c = Some out \<Longrightarrow> parse (fuel + k) st b c = Some out"
  by (auto simp: parse_def run_more_fuel split: outcome.splits)

subsection \<open>The scenarios of the spec\<close>

text \<open>
  Claim C5. The streaming input \<^verbatim>\<open>1 2 3\<close>, parsed four times in a row with the builder
  state and the \<^verbatim>\<open>dom_parser\<close> each call leaves: the first three calls return
  \<^verbatim>\<open>SUCCESS\<close> and call \<^verbatim>\<open>root_primitive\<close> once, on the offsets 0, 2 and 4, where the
  bytes \<^verbatim>\<open>1\<close>, \<^verbatim>\<open>2\<close> and \<^verbatim>\<open>3\<close> are; \<^verbatim>\<open>next_structural_index\<close> goes from 0 to 1, 2
  and 3; the fourth call returns \<^verbatim>\<open>EMPTY\<close> and calls nothing. One jump of fuel is enough.
\<close>

theorem streaming_three_values:
  "\<exists>c1 c2 c3 c4.
     parse_static (Suc fuel) True noop_builder () doc_stream = Some (Return SUCCESS c1)
     \<and> events (trace c1) = [start_document, root_primitive 0, end_document]
     \<and> parse_static (Suc fuel) True noop_builder (builder c1) (dom_parser (parser c1))
         = Some (Return SUCCESS c2)
     \<and> events (trace c2) = [start_document, root_primitive 2, end_document]
     \<and> parse_static (Suc fuel) True noop_builder (builder c2) (dom_parser (parser c2))
         = Some (Return SUCCESS c3)
     \<and> events (trace c3) = [start_document, root_primitive 4, end_document]
     \<and> parse_static (Suc fuel) True noop_builder (builder c3) (dom_parser (parser c3))
         = Some (Return EMPTY c4)
     \<and> events (trace c4) = []
     \<and> map (nth (buf doc_stream)) [0, 2, 4] = ''123''
     \<and> map next_structural_index
          [doc_stream, dom_parser (parser c1), dom_parser (parser c2), dom_parser (parser c3),
           dom_parser (parser c4)] = [0, 1, 2, 3, 3]"
  by (simp add: parse_static_def parse_def parse_begin_def new_parser_def at_end_def
        finish_def indexed_def iter_defs block_defs doc_stream_def noop_builder_def nth_append)

text \<open>
  The document of claim C3 parses to nine callbacks, not eleven: there is no
  \<^verbatim>\<open>end_object\<close>, no \<^verbatim>\<open>start_array\<close> and no \<^verbatim>\<open>primitive\<close> on the \<^verbatim>\<open>1\<close> at offset 5.
\<close>

theorem object_events_counterexample:
  "length (emitted (parse_static 20 False noop_builder () doc_object)) = 9
   \<and> end_object \<notin> set (emitted (parse_static 20 False noop_builder () doc_object))
   \<and> start_array \<notin> set (emitted (parse_static 20 False noop_builder () doc_object))
   \<and> primitive 5 \<notin> set (emitted (parse_static 20 False noop_builder () doc_object))"
  by (simp add: eval_defs doc_object_def noop_builder_def nth_append)

text \<open>
  Claim C3, as the code has it. Parsing \<^verbatim>\<open>{"a":1,"b":[true,null]}\<close> returns
  \<^verbatim>\<open>SUCCESS\<close> and calls \<^verbatim>\<open>start_document\<close>, \<^verbatim>\<open>start_object\<close>,
  \<^verbatim>\<open>primitive_field\<close> (key \<^verbatim>\<open>"a"\<close> at offset 1, value \<^verbatim>\<open>1\<close> at offset 5),
  \<^verbatim>\<open>start_array_field\<close> (key \<^verbatim>\<open>"b"\<close> at offset 7), \<^verbatim>\<open>primitive\<close> (\<^verbatim>\<open>true\<close> at
  offset 12), \<^verbatim>\<open>primitive\<close> (\<^verbatim>\<open>null\<close> at offset 17), \<^verbatim>\<open>end_array\<close>,
  \<^verbatim>\<open>try_end_object\<close>, \<^verbatim>\<open>end_document\<close>, with the builder that does nothing and with
  the one that keeps the depth.
\<close>

theorem object_events:
  \<open>result (parse_static 20 False noop_builder () doc_object) = Some SUCCESS
   \<and> emitted (parse_static 20 False noop_builder () doc_object)
       = [start_document, start_object, primitive_field 1 5, start_array_field 7,
          primitive 12, primitive 17, end_array, try_end_object, end_document]
   \<and> result (parse_static 20 False depth_builder () doc_object) = Some SUCCESS
   \<and> emitted (parse_static 20 False depth_builder () doc_object)
       = [start_document, start_object, primitive_field 1 5, start_array_field 7,
          primitive 12, primitive 17, end_array, try_end_object, end_document]
   \<and> map (nth (buf doc_object)) [1, 2, 5, 7, 8, 12, 17] = ''"a1"btn''\<close>
  by (simp add: eval_defs doc_object_def noop_builder_def depth_builder_def nth_append)

subsection \<open>The closing bracket of a top-level array\<close>

text \<open>
  Claim C4. The iterator is not at its end, \<^verbatim>\<open>start_document\<close> succeeds, the structural
  at the cursor is \<^verbatim>\<open>[\<close> and the last structural is not \<^verbatim>\<open>]\<close>. Then the non-streaming
  call returns \<^verbatim>\<open>TAPE_ERROR\<close> after \<^verbatim>\<open>start_document\<close> and one cursor move, with no
  other callback; the streaming call makes no such check and goes on at
  \<^verbatim>\<open>generic_array_begin\<close> from the same state.
\<close>

theorem array_precheck:
  assumes "\<not> at_end (parser c)"
    and "b start_document (builder c) (parser c) = (SUCCESS, s1, p1)"
    and "structural_byte (dom_parser p1) (next_structural p1) = Some CHR ''[''"
    and "structural_byte (dom_parser p1) (unat (n_structural_indexes (dom_parser p1) - 1)) = Some l"
    and "l \<noteq> CHR '']''"
  shows "\<exists>c1. parse fuel False b c = Some (Return TAPE_ERROR c1)
            \<and> parse fuel True b c = run fuel True b generic_array_begin c1
            \<and> trace c1 = trace c @ [Call start_document SUCCESS,
                                      Cursor (Suc (next_structural p1))]
            \<and> builder c1 = s1
            \<and> parser c1 = p1\<lparr>next_structural := Suc (next_structural p1)\<rparr>"
  using assms
  by (auto simp: parse_def parse_begin_def iter_defs structural_byte_def split: if_splits)

theorem array_precheck_witness:
  "result (parse_static 20 False noop_builder () (indexed ''[1'' [0, 1])) = Some TAPE_ERROR
   \<and> emitted (parse_static 20 False noop_builder () (indexed ''[1'' [0, 1])) = [start_document]
   \<and> result (parse_static 20 True noop_builder () (indexed ''[1'' [0, 1])) = Some TAPE_ERROR
   \<and> emitted (parse_static 20 True noop_builder () (indexed ''[1'' [0, 1]))
       = [start_document, start_array, primitive 1]"
proof -
  let ?dp = "indexed ''[1'' [0, 1]"
  let ?c = "\<lparr>parser = new_parser False ?dp, builder = (), value_p = 0, trace = []\<rparr>"
  let ?c' = "\<lparr>parser = new_parser True ?dp, builder = (), value_p = 0, trace = []\<rparr>"
  have p: "new_parser True ?dp = new_parser False ?dp"
    by (simp add: new_parser_def indexed_def)
  have 1: "\<not> at_end (parser ?c)"
    by (simp add: at_end_def new_parser_def indexed_def)
  have 2: "noop_builder start_document (builder ?c) (parser ?c) = (SUCCESS, (), new_parser False ?dp)"
    by (simp add: noop_builder_def)
  have 3: "structural_byte (dom_parser (new_parser False ?dp)) (next_structural (new_parser False ?dp))
             = Some CHR ''[''"
    by (simp add: structural_byte_def new_parser_def indexed_def)
  have 4: "structural_byte (dom_parser (new_parser False ?dp))
             (unat (n_structural_indexes (dom_parser (new_parser False ?dp)) - 1)) = Some CHR ''1''"
    by (simp add: structural_byte_def new_parser_def indexed_def)
  have 5: "CHR ''1'' \<noteq> CHR '']''" by simp
  from array_precheck [where c = ?c and b = noop_builder and fuel = 20, OF 1 2 3 4 5]
  obtain c1 where r: "parse 20 False noop_builder ?c = Some (Return TAPE_ERROR c1)"
    and t: "trace c1 = trace ?c @ [Call start_document SUCCESS,
                                   Cursor (Suc (next_structural (new_parser False ?dp)))]"
    by blast
  have "result (parse_static 20 False noop_builder () ?dp) = Some TAPE_ERROR"
    and "emitted (parse_static 20 False noop_builder () ?dp) = [start_document]"
    using r t by (simp_all add: parse_static_def)
  moreover
  have "result (parse_static 20 True noop_builder () ?dp) = Some TAPE_ERROR"
    and "emitted (parse_static 20 True noop_builder () ?dp)
           = [start_document, start_array, primitive 1]"
    by (simp_all add: eval_defs noop_builder_def nth_append)
  ultimately show ?thesis by simp
qed

subsection \<open>Builders that leave the iterator alone\<close>

lemma keeps_iterator_cursor [simp]:
  "keeps_iterator b \<Longrightarrow> next_structural (snd (snd (b ev s p))) = next_structural p"
  by (simp add: keeps_iterator_def)

lemma keeps_iterator_dom_parser [simp]:
  "keeps_iterator b \<Longrightarrow> dom_parser (snd (snd (b ev s p))) = dom_parser p"
  by (simp add: keeps_iterator_def)

lemma step_mode: "l \<noteq> document_end \<Longrightarrow> step True b l c = step False b l c"
  by (cases l) simp_all

lemma step_SUCCESS_label: "step st b l c = Return SUCCESS c' \<Longrightarrow> l = document_end"
  by (cases l; auto simp: proj_defs block_defs split: if_splits)

lemma document_end_mode:
  assumes "step True b document_end c = Return SUCCESS c'"
    and "next_structural_index (dom_parser (parser c')) \<noteq> n_structural_indexes (dom_parser (parser c'))"
  shows "step False b document_end c = Return TAPE_ERROR c'"
  using assms
  by (auto simp: proj_defs block_defs finish_def split: if_splits)

lemma run_mode:
  assumes "run fuel True b l c = Some (Return SUCCESS c')"
    and "next_structural_index (dom_parser (parser c')) \<noteq> n_structural_indexes (dom_parser (parser c'))"
  shows "run fuel False b l c = Some (Return TAPE_ERROR c')"
  using assms(1)
proof (induction fuel arbitrary: l c)
  case 0
  then show ?case by simp
next
  case (Suc fuel)
  show ?case
  proof (cases "l = document_end")
    case True
    with Suc.prems have "step True b document_end c = Return SUCCESS c'"
      by (auto simp: proj_defs block_defs split: if_splits prod.splits)
    from document_end_mode [OF this assms(2)] True show ?thesis by simp
  next
    case False
    have "step True b l c = step False b l c"
      using False by (rule step_mode)
    with Suc False show ?thesis
      by (cases "step False b l c") (auto dest: step_SUCCESS_label)
  qed
qed

lemma parse_begin_mode:
  assumes "keeps_iterator b"
    and "structural_byte (dom_parser (parser c))
           (unat (n_structural_indexes (dom_parser (parser c)) - 1)) \<noteq> None"
    and "parse_begin True b c = Goto l c1"
  shows "parse_begin False b c = Goto l c1 \<or> (\<exists>c2. parse_begin False b c = Return TAPE_ERROR c2)"
  using assms
  by (auto simp: parse_begin_def proj_defs structural_byte_def split: if_splits)

subsection \<open>Residual tokens\<close>

text \<open>
  The two modes differ in the check of residual tokens only. The builder leaves the
  iterator alone and the last structural can be read: whenever the streaming call returns
  \<^verbatim>\<open>SUCCESS\<close> and structural tokens are left over, the non-streaming call on the same
  state returns \<^verbatim>\<open>TAPE_ERROR\<close>; and in streaming mode \<^verbatim>\<open>document_end\<close> returns
  \<^verbatim>\<open>SUCCESS\<close> whenever \<^verbatim>\<open>end_document\<close> succeeds at depth 0.
\<close>

lemma residual_check_modes:
  assumes "keeps_iterator b"
    and "structural_byte (dom_parser (parser c))
           (unat (n_structural_indexes (dom_parser (parser c)) - 1)) \<noteq> None"
  shows "(parse fuel True b c = Some (Return SUCCESS c')
          \<and> next_structural_index (dom_parser (parser c'))
              \<noteq> n_structural_indexes (dom_parser (parser c'))
          \<longrightarrow> (\<exists>c''. parse fuel False b c = Some (Return TAPE_ERROR c'')))
       \<and> (fst (b end_document (builder c) (parser c)) = SUCCESS
          \<and> depth (snd (snd (b end_document (builder c) (parser c)))) = 0
          \<longrightarrow> returned (step True b document_end c) = Some SUCCESS)"
proof (intro conjI impI)
  assume a: "parse fuel True b c = Some (Return SUCCESS c')
          \<and> next_structural_index (dom_parser (parser c'))
              \<noteq> n_structural_indexes (dom_parser (parser c'))"
  then obtain l c1 where g: "parse_begin True b c = Goto l c1"
    and r: "run fuel True b l c1 = Some (Return SUCCESS c')"
    using parse_begin_no_SUCCESS [of True b c c']
    by (auto simp: parse_def split: outcome.splits)
  from parse_begin_mode [OF assms g]
  show "\<exists>c''. parse fuel False b c = Some (Return TAPE_ERROR c'')"
  proof
    assume "parse_begin False b c = Goto l c1"
    with run_mode [OF r] a show ?thesis by (simp add: parse_def)
  next
    assume "\<exists>c2. parse_begin False b c = Return TAPE_ERROR c2"
    then show ?thesis by (auto simp: parse_def)
  qed
next
  assume "fst (b end_document (builder c) (parser c)) = SUCCESS
          \<and> depth (snd (snd (b end_document (builder c) (parser c)))) = 0"
  then show "returned (step True b document_end c) = Some SUCCESS"
    by (simp add: proj_defs block_defs finish_def)
qed

text \<open>
  The first value \<^verbatim>\<open>{}\<close> followed by the residual tokens \<^verbatim>\<open>,\<close> and \<^verbatim>\<open>1\<close>: the
  streaming call does not return \<^verbatim>\<open>SUCCESS\<close>. \<^verbatim>\<open>generic_next\<close> takes the comma for the
  continuation of a container.
\<close>

theorem residual_comma_counterexample:
  "result (parse_static 20 True noop_builder () (indexed ''{},1'' [0, 1, 2, 3])) = Some TAPE_ERROR
   \<and> emitted (parse_static 20 True noop_builder () (indexed ''{},1'' [0, 1, 2, 3]))
       = [start_document, empty_object, try_resume_array, primitive 3]
   \<and> result (parse_static 20 True depth_builder () (indexed ''{},1'' [0, 1, 2, 3])) = Some TAPE_ERROR"
  by (simp add: eval_defs noop_builder_def depth_builder_def nth_append)


subsection \<open>The moves of the cursor\<close>

lemma cursors_append [simp]: "cursors (t @ u) = cursors t @ cursors u"
  by (induction t rule: cursors.induct) simp_all

lemma ascending_append [simp]:
  "ascending i (xs @ ys) = (ascending i xs \<and> ascending (last (i # xs)) ys)"
  by (induction xs arbitrary: i) auto

text \<open>The cursor is the last value the trace has for it, and the values went up one by one.\<close>

lemma step_ascending:
  assumes "keeps_iterator b"
    and "next_structural (parser c) = last (i0 # cursors (trace c))"
    and "ascending i0 (cursors (trace c))"
    and "l \<noteq> document_end"
    and "step st b l c = out"
  shows "next_structural (parser (outcome_config out)) = last (i0 # cursors (trace (outcome_config out)))
       \<and> dom_parser (parser (outcome_config out)) = dom_parser (parser c)
       \<and> (ascending i0 (cursors (trace (outcome_config out)))
          \<or> (\<exists>c'. out = Goto document_end c')
            \<and> backed_up (dom_parser (parser c)) i0 (trace (outcome_config out)))"
proof (cases "l = generic_next")
  case False
  with assms show ?thesis
    by (cases l; auto simp: proj_defs block_defs split: if_splits)
next
  case True
  show ?thesis
  proof (cases "\<exists>c'. out = Goto document_end c'")
    case False
    with assms True show ?thesis
      by (auto simp: proj_defs block_defs split: if_splits)
  next
    case g: True
    have "backed_up (dom_parser (parser c)) i0 (trace (outcome_config out))"
      unfolding backed_up_def
      apply (rule exI [of _ "trace c"])
      apply (rule exI [of _ "next_structural (parser c)"])
      using assms True g
      by (auto simp: proj_defs block_defs structural_byte_def split: if_splits)
    moreover have "next_structural (parser (outcome_config out)) = last (i0 # cursors (trace (outcome_config out)))
       \<and> dom_parser (parser (outcome_config out)) = dom_parser (parser c)"
      using assms True g
      by (auto simp: proj_defs block_defs split: if_splits)
    ultimately show ?thesis using g by blast
  qed
qed

lemma step_document_end:
  assumes "keeps_iterator b" and "step st b document_end c = out"
  shows "next_structural (parser (outcome_config out)) = next_structural (parser c)
       \<and> (\<exists>e. trace (outcome_config out) = trace c @ [Call end_document e])
       \<and> returned out \<noteq> None"
  using assms
  by (auto simp: proj_defs block_defs finish_def split: if_splits)

lemma parse_begin_ascending:
  assumes "keeps_iterator b"
    and "next_structural (parser c) = last (i0 # cursors (trace c))"
    and "ascending i0 (cursors (trace c))"
    and "parse_begin st b c = out"
  shows "next_structural (parser (outcome_config out)) = last (i0 # cursors (trace (outcome_config out)))
       \<and> dom_parser (parser (outcome_config out)) = dom_parser (parser c)
       \<and> ascending i0 (cursors (trace (outcome_config out)))"
  using assms
  by (auto simp: proj_defs parse_begin_def split: if_splits)

lemma run_cursor:
  assumes k: "keeps_iterator b"
    and r: "run fuel st b l c1 = Some out"
    and c: "next_structural (parser c1) = last (i0 # cursors (trace c1))"
    and d: "dom_parser (parser c1) = dp"
    and a: "ascending i0 (cursors (trace c1))"
  shows "next_structural (parser (outcome_config out))
           = last (i0 # cursors (trace (outcome_config out)))
       \<and> (ascending i0 (cursors (trace (outcome_config out)))
          \<or> (\<exists>t e. trace (outcome_config out) = t @ [Call end_document e]
                \<and> backed_up dp i0 t \<and> returned out \<noteq> None))"
    (is "?Q out")
proof -
  let ?J = "\<lambda>l c. next_structural (parser c) = last (i0 # cursors (trace c))
                  \<and> dom_parser (parser c) = dp
                  \<and> (ascending i0 (cursors (trace c))
                     \<or> l = document_end \<and> backed_up dp i0 (trace c))"
  have goto: "?J l' c'" if "?J l c" and "step st b l c = Goto l' c'" for l c l' c'
  proof (cases "l = document_end")
    case True
    with step_document_end [OF k, of st c "Goto l' c'"] that show ?thesis by simp
  next
    case False
    with that have "ascending i0 (cursors (trace c))" by simp
    from step_ascending [OF k _ this False that(2), of ] that(1) show ?thesis by auto
  qed
  have stop: "?Q out'" if "?J l c" and "step st b l c = out'" and "\<forall>l' c'. out' \<noteq> Goto l' c'"
    for l c out'
  proof (cases "l = document_end")
    case True
    from step_document_end [OF k that(2) [unfolded True]]
    obtain e where n: "next_structural (parser (outcome_config out')) = next_structural (parser c)"
      and t: "trace (outcome_config out') = trace c @ [Call end_document e]"
      and ret: "returned out' \<noteq> None"
      by blast
    from that(1) n t ret show ?thesis by auto
  next
    case False
    with that have "ascending i0 (cursors (trace c))" by simp
    from step_ascending [OF k _ this False that(2)] that(1,3) show ?thesis by auto
  qed
  show ?thesis
    by (rule run_invariant [OF r, where J = ?J and Q = ?Q])
       (use c d a goto stop in \<open>blast+\<close>)
qed

text \<open>
  Claim C6. The builder leaves the iterator alone. In one call of \<^verbatim>\<open>parse\<close> the cursor
  is always the last value the driver wrote to it, and each write is the value before plus
  one; the only exception is a single write of the value before minus one, and then this:
  it is the last cursor move of the call, the structural the cursor is put back on has a
  byte other than \<^verbatim>\<open>,\<close> \<^verbatim>\<open>]\<close> and \<^verbatim>\<open>}\<close> (the byte \<^verbatim>\<open>generic_next\<close> has just read),
  the only action after it is the \<^verbatim>\<open>end_document\<close> callback of \<^verbatim>\<open>document_end\<close>, and the
  call returns.
\<close>

theorem cursor_moves:
  assumes "keeps_iterator b" and "trace c = []" and "parse fuel STREAMING b c = Some out"
  shows "next_structural (parser (outcome_config out))
           = last (next_structural (parser c) # cursors (trace (outcome_config out)))
       \<and> (ascending (next_structural (parser c)) (cursors (trace (outcome_config out)))
          \<or> (\<exists>t e. trace (outcome_config out) = t @ [Call end_document e]
                \<and> backed_up (dom_parser (parser c)) (next_structural (parser c)) t
                \<and> returned out \<noteq> None))"
proof -
  let ?i0 = "next_structural (parser c)"
  have c0: "next_structural (parser c) = last (?i0 # cursors (trace c))"
    and a0: "ascending ?i0 (cursors (trace c))"
    using assms(2) by simp_all
  note pb = parse_begin_ascending [OF assms(1) c0 a0]
  show ?thesis
  proof (cases "parse_begin STREAMING b c")
    case (Goto l c1)
    with assms(3) have r: "run fuel STREAMING b l c1 = Some out" by (simp add: parse_def)
    from pb [OF Goto] run_cursor [OF assms(1) r] show ?thesis by simp
  next
    case (Return e c1)
    with assms(3) pb [OF Return] show ?thesis by (auto simp: parse_def)
  next
    case (Fault c1)
    with assms(3) pb [OF Fault] show ?thesis by (auto simp: parse_def)
  qed
qed

theorem cursor_moves_witness:
  "keeps_iterator depth_builder
   \<and> (\<exists>c'. parse_static 20 False depth_builder () (indexed ''[1]'' [0, 1, 2]) = Some (Return SUCCESS c')
         \<and> cursors (trace c') = [1, 2, 3, 4, 3]
         \<and> (\<exists>t. trace c' = t @ [Call end_document SUCCESS]
                \<and> backed_up (indexed ''[1]'' [0, 1, 2]) 0 t))"
proof -
  let ?dp = "indexed ''[1]'' [0, 1, 2]"
  let ?c = "\<lparr>parser = new_parser False ?dp, builder = (), value_p = 0, trace = []\<rparr>"
  have k: "keeps_iterator depth_builder"
    by (simp add: keeps_iterator_def depth_builder_def)
  obtain c' where r: "parse 20 False depth_builder ?c = Some (Return SUCCESS c')"
    and cs: "cursors (trace c') = [1, 2, 3, 4, 3]"
    and l: "last (trace c') = Call end_document SUCCESS"
    by (simp add: eval_defs depth_builder_def nth_append)
  have "\<not> ascending 0 (cursors (trace c'))"
    by (simp add: cs)
  with cursor_moves [OF k _ r] obtain t e where "trace c' = t @ [Call end_document e]"
    and b: "backed_up ?dp 0 t"
    by (auto simp: new_parser_def)
  with l have "trace c' = t @ [Call end_document SUCCESS]" by simp
  with k r cs b show ?thesis by (auto simp: parse_static_def)
qed

subsection \<open>Single jumps\<close>


lemma follows_fst: "follows up down b \<Longrightarrow> fst (b ev s p) = SUCCESS"
  by (simp add: follows_def)

lemma follows_snd:
  "follows up down b \<Longrightarrow> snd (snd (b ev s p)) = p\<lparr>depth := nesting up down ev (depth p)\<rparr>"
  by (simp add: follows_def)

lemma follows_inverse: "follows up down b \<Longrightarrow> down (up d) = d"
  by (simp add: follows_def)

lemmas move_defs = moves_def at_label_def structural_byte_def nesting_def proj_defs block_defs

lemma moves_generic_object_begin_close:
  assumes "follows up down b"
    and "structural_byte dp k = Some CHR ''}''"
  shows "moves b dp generic_object_begin k d generic_next (Suc k) d"
  using assms(2-)
  by (auto simp: move_defs follows_fst [OF assms(1)] follows_snd [OF assms(1)]
        follows_inverse [OF assms(1)] split: if_splits)

lemma moves_generic_object_begin_key:
  assumes "follows up down b"
    and "structural_byte dp k = Some (CHR 0x22)"
  shows "moves b dp generic_object_begin k d object_colon (Suc k) (up d)"
  using assms(2-)
  by (auto simp: move_defs follows_fst [OF assms(1)] follows_snd [OF assms(1)]
        follows_inverse [OF assms(1)] split: if_splits)

lemma moves_object_colon_colon:
  assumes "structural_byte dp k = Some CHR '':''"
  shows "moves b dp object_colon k d object_value (Suc k) d"
  using assms by (auto simp: move_defs split: if_splits)

lemma moves_object_value_empty_object:
  assumes "follows up down b"
    and "structural_byte dp k = Some CHR ''{''"
    and "structural_byte dp (Suc k) = Some CHR ''}''"
  shows "moves b dp object_value k d object_next (Suc (Suc k)) d"
  using assms(2-)
  by (auto simp: move_defs follows_fst [OF assms(1)] follows_snd [OF assms(1)]
        follows_inverse [OF assms(1)] split: if_splits)

lemma moves_object_value_object:
  assumes "follows up down b"
    and "structural_byte dp k = Some CHR ''{''"
    and "structural_byte dp (Suc k) = Some (CHR 0x22)"
  shows "moves b dp object_value k d object_colon (Suc (Suc k)) (up d)"
  using assms(2-)
  by (auto simp: move_defs follows_fst [OF assms(1)] follows_snd [OF assms(1)]
        follows_inverse [OF assms(1)] split: if_splits)

lemma moves_object_value_empty_array:
  assumes "follows up down b"
    and "structural_byte dp k = Some CHR ''[''"
    and "structural_byte dp (Suc k) = Some CHR '']''"
  shows "moves b dp object_value k d object_next (Suc (Suc k)) d"
  using assms(2-)
  by (auto simp: move_defs follows_fst [OF assms(1)] follows_snd [OF assms(1)]
        follows_inverse [OF assms(1)] split: if_splits)

lemma moves_object_value_array:
  assumes "follows up down b"
    and "structural_byte dp k = Some CHR ''[''"
    and "structural_byte dp (Suc k) = Some x"
    and "x \<noteq> CHR '']''"
  shows "moves b dp object_value k d array_value (Suc (Suc k)) (up d)"
  using assms(2-)
  by (auto simp: move_defs follows_fst [OF assms(1)] follows_snd [OF assms(1)]
        follows_inverse [OF assms(1)] split: if_splits)

lemma moves_object_value_primitive:
  assumes "follows up down b"
    and "structural_byte dp k = Some x"
    and "x \<noteq> CHR ''{''"
    and "x \<noteq> CHR ''[''"
  shows "moves b dp object_value k d object_next (Suc k) d"
  using assms(2-)
  by (auto simp: move_defs follows_fst [OF assms(1)] follows_snd [OF assms(1)]
        follows_inverse [OF assms(1)] split: if_splits)

lemma moves_object_next_comma:
  assumes "structural_byte dp k = Some CHR '',''"
    and "structural_byte dp (Suc k) = Some (CHR 0x22)"
  shows "moves b dp object_next k d object_colon (Suc (Suc k)) d"
  using assms by (auto simp: move_defs split: if_splits)

lemma moves_object_next_close:
  assumes "follows up down b"
    and "structural_byte dp k = Some CHR ''}''"
  shows "moves b dp object_next k d generic_next (Suc k) (down d)"
  using assms(2-)
  by (auto simp: move_defs follows_fst [OF assms(1)] follows_snd [OF assms(1)]
        follows_inverse [OF assms(1)] split: if_splits)

lemma moves_generic_array_begin_close:
  assumes "follows up down b"
    and "structural_byte dp k = Some CHR '']''"
  shows "moves b dp generic_array_begin k d generic_next (Suc k) d"
  using assms(2-)
  by (auto simp: move_defs follows_fst [OF assms(1)] follows_snd [OF assms(1)]
        follows_inverse [OF assms(1)] split: if_splits)

lemma moves_generic_array_begin_element:
  assumes "follows up down b"
    and "structural_byte dp k = Some x"
    and "x \<noteq> CHR '']''"
  shows "moves b dp generic_array_begin k d array_value (Suc k) (up d)"
  using assms(2-)
  by (auto simp: move_defs follows_fst [OF assms(1)] follows_snd [OF assms(1)]
        follows_inverse [OF assms(1)] split: if_splits)

lemma moves_array_value_empty_object:
  assumes "follows up down b"
    and "structural_byte dp k = Some CHR ''{''"
    and "structural_byte dp (Suc k) = Some CHR ''}''"
  shows "moves b dp array_value (Suc k) d array_next (Suc (Suc k)) d"
  using assms(2-)
  by (auto simp: move_defs follows_fst [OF assms(1)] follows_snd [OF assms(1)]
        follows_inverse [OF assms(1)] split: if_splits)

lemma moves_array_value_object:
  assumes "follows up down b"
    and "structural_byte dp k = Some CHR ''{''"
    and "structural_byte dp (Suc k) = Some (CHR 0x22)"
  shows "moves b dp array_value (Suc k) d object_colon (Suc (Suc k)) (up d)"
  using assms(2-)
  by (auto simp: move_defs follows_fst [OF assms(1)] follows_snd [OF assms(1)]
        follows_inverse [OF assms(1)] split: if_splits)

lemma moves_array_value_empty_array:
  assumes "follows up down b"
    and "structural_byte dp k = Some CHR ''[''"
    and "structural_byte dp (Suc k) = Some CHR '']''"
  shows "moves b dp array_value (Suc k) d array_next (Suc (Suc k)) d"
  using assms(2-)
  by (auto simp: move_defs follows_fst [OF assms(1)] follows_snd [OF assms(1)]
        follows_inverse [OF assms(1)] split: if_splits)

lemma moves_array_value_array:
  assumes "follows up down b"
    and "structural_byte dp k = Some CHR ''[''"
    and "structural_byte dp (Suc k) = Some x"
    and "x \<noteq> CHR '']''"
  shows "moves b dp array_value (Suc k) d array_value (Suc (Suc k)) (up d)"
  using assms(2-)
  by (auto simp: move_defs follows_fst [OF assms(1)] follows_snd [OF assms(1)]
        follows_inverse [OF assms(1)] split: if_splits)

lemma moves_array_value_primitive:
  assumes "follows up down b"
    and "structural_byte dp k = Some x"
    and "x \<noteq> CHR ''{''"
    and "x \<noteq> CHR ''[''"
  shows "moves b dp array_value (Suc k) d array_next (Suc k) d"
  using assms(2-)
  by (auto simp: move_defs follows_fst [OF assms(1)] follows_snd [OF assms(1)]
        follows_inverse [OF assms(1)] split: if_splits)

lemma moves_array_next_comma:
  assumes "structural_byte dp k = Some CHR '',''"
    and "structural_byte dp (Suc k) = Some x"
  shows "moves b dp array_next k d array_value (Suc (Suc k)) d"
  using assms by (auto simp: move_defs split: if_splits)

lemma moves_array_next_close:
  assumes "follows up down b"
    and "structural_byte dp k = Some CHR '']''"
  shows "moves b dp array_next k d generic_next (Suc k) (down d)"
  using assms(2-)
  by (auto simp: move_defs follows_fst [OF assms(1)] follows_snd [OF assms(1)]
        follows_inverse [OF assms(1)] split: if_splits)

lemma moves_generic_next_key:
  assumes "follows up down b"
    and "structural_byte dp k = Some CHR '',''"
    and "structural_byte dp (Suc k) = Some (CHR 0x22)"
    and "structural_byte dp (Suc (Suc k)) = Some CHR '':''"
  shows "moves b dp generic_next k d object_value (Suc (Suc (Suc k))) d"
  using assms(2-)
  by (auto simp: move_defs follows_fst [OF assms(1)] follows_snd [OF assms(1)]
        follows_inverse [OF assms(1)] split: if_splits)

lemma moves_generic_next_last_string:
  assumes "follows up down b"
    and "structural_byte dp k = Some CHR '',''"
    and "structural_byte dp (Suc k) = Some (CHR 0x22)"
    and "structural_byte dp (Suc (Suc k)) = Some CHR '']''"
  shows "moves b dp generic_next k d generic_next (Suc (Suc (Suc k))) (down d)"
  using assms(2-)
  by (auto simp: move_defs follows_fst [OF assms(1)] follows_snd [OF assms(1)]
        follows_inverse [OF assms(1)] split: if_splits)

lemma moves_generic_next_array:
  assumes "follows up down b"
    and "structural_byte dp k = Some CHR '',''"
    and "structural_byte dp (Suc k) = Some CHR ''[''"
  shows "moves b dp generic_next k d generic_array_begin (Suc (Suc k)) d"
  using assms(2-)
  by (auto simp: move_defs follows_fst [OF assms(1)] follows_snd [OF assms(1)]
        follows_inverse [OF assms(1)] split: if_splits)

lemma moves_generic_next_object:
  assumes "follows up down b"
    and "structural_byte dp k = Some CHR '',''"
    and "structural_byte dp (Suc k) = Some CHR ''{''"
  shows "moves b dp generic_next k d generic_object_begin (Suc (Suc k)) d"
  using assms(2-)
  by (auto simp: move_defs follows_fst [OF assms(1)] follows_snd [OF assms(1)]
        follows_inverse [OF assms(1)] split: if_splits)

lemma moves_generic_next_primitive:
  assumes "follows up down b"
    and "structural_byte dp k = Some CHR '',''"
    and "structural_byte dp (Suc k) = Some x"
    and "x \<noteq> CHR 0x22"
    and "x \<noteq> CHR ''[''"
    and "x \<noteq> CHR ''{''"
  shows "moves b dp generic_next k d array_value (Suc (Suc k)) d"
  using assms(2-)
  by (auto simp: move_defs follows_fst [OF assms(1)] follows_snd [OF assms(1)]
        follows_inverse [OF assms(1)] split: if_splits)

lemma moves_generic_next_close_array:
  assumes "follows up down b"
    and "structural_byte dp k = Some CHR '']''"
  shows "moves b dp generic_next k d generic_next (Suc k) (down d)"
  using assms(2-)
  by (auto simp: move_defs follows_fst [OF assms(1)] follows_snd [OF assms(1)]
        follows_inverse [OF assms(1)] split: if_splits)

lemma moves_generic_next_close_object:
  assumes "follows up down b"
    and "structural_byte dp k = Some CHR ''}''"
  shows "moves b dp generic_next k d generic_next (Suc k) (down d)"
  using assms(2-)
  by (auto simp: move_defs follows_fst [OF assms(1)] follows_snd [OF assms(1)]
        follows_inverse [OF assms(1)] split: if_splits)

lemma moves_generic_next_document_end:
  assumes "structural_byte dp k = Some x"
    and "x \<noteq> CHR '',''"
    and "x \<noteq> CHR '']''"
    and "x \<noteq> CHR ''}''"
  shows "moves b dp generic_next k d document_end k d"
  using assms by (auto simp: move_defs split: if_splits)


subsection \<open>Walking a value\<close>

lemma reach_move: "moves b dp l i d l' i' d' \<Longrightarrow> reach b dp l i d l' i' d'"
  by (blast intro: reach.intros)

lemma reach_trans:
  "reach b dp l i d l1 i1 d1 \<Longrightarrow> reach b dp l1 i1 d1 l2 i2 d2 \<Longrightarrow> reach b dp l i d l2 i2 d2"
  by (induction rule: reach.induct) (auto intro: reach.intros)

lemma reach_snoc:
  "reach b dp l i d l1 i1 d1 \<Longrightarrow> moves b dp l1 i1 d1 l2 i2 d2 \<Longrightarrow> reach b dp l i d l2 i2 d2"
  by (blast intro: reach_trans reach_move)

lemma toks_append: "toks dp i (xs @ ys) = (toks dp i xs \<and> toks dp (i + length xs) ys)"
  by (induction xs arbitrary: i) auto

lemma tokens_Cons: "\<exists>ts. tokens v = first_token v # ts"
  by (cases v) auto

lemma sep_tokens_Cons: "\<exists>ts. sep (map tokens (v # vs)) = first_token v # ts"
proof -
  obtain ts where "tokens v = first_token v # ts" using tokens_Cons by blast
  then show ?thesis by (cases vs) auto
qed

lemma proper_first_token:
  "proper v \<Longrightarrow> first_token v \<notin> {CHR '']'', CHR ''}'', CHR '','', CHR '':''}"
  by (cases v) auto

lemma not_simple_container: "\<not> simple v \<Longrightarrow> is_container v"
  by (cases v) auto

lemma value_ok_Prim:
  assumes "follows up down b" and "proper (Prim c)"
  shows "value_ok b dp (Prim c)"
  unfolding value_ok_def using assms
  by (auto intro!: reach_move moves_array_value_primitive moves_object_value_primitive)

lemma value_ok_Arr_Nil: "follows up down b \<Longrightarrow> value_ok b dp (Arr [])"
  unfolding value_ok_def
  by (auto intro!: reach_move moves_array_value_empty_array moves_object_value_empty_array
        moves_generic_array_begin_close)

lemma value_ok_Obj_Nil: "follows up down b \<Longrightarrow> value_ok b dp (Obj [])"
  unfolding value_ok_def
  by (auto intro!: reach_move moves_array_value_empty_object moves_object_value_empty_object
        moves_generic_object_begin_close)

lemma value_okA:
  "value_ok b dp v \<Longrightarrow> toks dp i (tokens v) \<Longrightarrow>
   reach b dp array_value (Suc i) d (if simple v then array_next else generic_next)
     (i + length (tokens v)) d"
  by (simp add: value_ok_def)

lemma value_okO:
  "value_ok b dp v \<Longrightarrow> toks dp i (tokens v) \<Longrightarrow>
   reach b dp object_value i d (if simple v then object_next else generic_next)
     (i + length (tokens v)) d"
  by (simp add: value_ok_def)

lemma value_okG_Arr:
  "value_ok b dp (Arr vs) \<Longrightarrow> toks dp i (tokens (Arr vs)) \<Longrightarrow>
   reach b dp generic_array_begin (Suc i) d generic_next (i + length (tokens (Arr vs))) d"
  by (simp add: value_ok_def)

lemma value_okG_Obj:
  "value_ok b dp (Obj vs) \<Longrightarrow> toks dp i (tokens (Obj vs)) \<Longrightarrow>
   reach b dp generic_object_begin (Suc i) d generic_next (i + length (tokens (Obj vs))) d"
  by (simp add: value_ok_def)

text \<open>One element after a comma that \<open>generic_next\<close> reads, up to where the element ends.\<close>

lemma generic_next_element:
  assumes b: "follows up down b" and p: "proper v" and ok: "value_ok b dp v"
    and ns: "v \<noteq> Prim (CHR 0x22)"
    and t: "toks dp k (CHR '','' # tokens v)"
  shows "reach b dp generic_next k d (if is_container v then generic_next else array_next)
           (Suc k + length (tokens v)) d"
proof (cases v)
  case (Prim c)
  with p ns t have "moves b dp generic_next k d array_value (Suc (Suc k)) d"
    by (intro moves_generic_next_primitive [OF b]) auto
  moreover from value_okA [OF ok, of "Suc k" d] t Prim
  have "reach b dp array_value (Suc (Suc k)) d array_next (Suc (Suc k)) d" by simp
  ultimately have "reach b dp generic_next k d array_next (Suc (Suc k)) d"
    by (rule reach_step)
  with Prim show ?thesis by simp
next
  case (Arr vs)
  with t have "moves b dp generic_next k d generic_array_begin (Suc (Suc k)) d"
    by (intro moves_generic_next_array [OF b]) auto
  moreover from value_okG_Arr [OF ok [unfolded Arr], of "Suc k" d] t Arr
  have "reach b dp generic_array_begin (Suc (Suc k)) d generic_next (Suc k + length (tokens v)) d"
    by simp
  ultimately have "reach b dp generic_next k d generic_next (Suc k + length (tokens v)) d"
    by (rule reach_step)
  with Arr show ?thesis by simp
next
  case (Obj vs)
  with t have "moves b dp generic_next k d generic_object_begin (Suc (Suc k)) d"
    by (intro moves_generic_next_object [OF b]) auto
  moreover from value_okG_Obj [OF ok [unfolded Obj], of "Suc k" d] t Obj
  have "reach b dp generic_object_begin (Suc (Suc k)) d generic_next (Suc k + length (tokens v)) d"
    by simp
  ultimately have "reach b dp generic_next k d generic_next (Suc k + length (tokens v)) d"
    by (rule reach_step)
  with Obj show ?thesis by simp
qed

text \<open>
  The elements of an array up to behind its closing bracket: from \<open>array_value\<close> at the
  first element, and from \<open>generic_next\<close> at the comma before it.
\<close>

lemma elements_reach:
  assumes b: "follows up down b"
  shows "(\<forall>u \<in> set (v # vs). proper u \<and> value_ok b dp u) \<Longrightarrow>
     (no_slip False (v # vs) \<longrightarrow>
        (\<forall>j d. toks dp j (sep (map tokens (v # vs)) @ [CHR '']'']) \<longrightarrow>
          reach b dp array_value (Suc j) d generic_next
            (Suc (j + length (sep (map tokens (v # vs))))) (down d)))
     \<and> (no_slip True (v # vs) \<longrightarrow>
        (\<forall>k d. toks dp k (CHR '','' # sep (map tokens (v # vs)) @ [CHR '']'']) \<longrightarrow>
          reach b dp generic_next k d generic_next
            (Suc (Suc (k + length (sep (map tokens (v # vs)))))) (down d)))"
proof (induction vs arbitrary: v)
  case Nil
  then have p: "proper v" and ok: "value_ok b dp v" by simp_all
  have A: "reach b dp array_value (Suc j) d generic_next (Suc (j + length (tokens v))) (down d)"
    if t: "toks dp j (tokens v @ [CHR '']''])" for j d
  proof -
    from t have tv: "toks dp j (tokens v)"
      and e: "structural_byte dp (j + length (tokens v)) = Some CHR '']''"
      by (simp_all add: toks_append)
    have "moves b dp (if simple v then array_next else generic_next) (j + length (tokens v)) d
            generic_next (Suc (j + length (tokens v))) (down d)"
      using moves_array_next_close [OF b e] moves_generic_next_close_array [OF b e] by simp
    with value_okA [OF ok tv] show ?thesis by (rule reach_snoc)
  qed
  have G: "reach b dp generic_next k d generic_next (Suc (Suc (k + length (tokens v)))) (down d)"
    if t: "toks dp k (CHR '','' # tokens v @ [CHR '']''])" for k d
  proof (cases "v = Prim (CHR 0x22)")
    case True
    with t have "moves b dp generic_next k d generic_next (Suc (Suc (Suc k))) (down d)"
      by (intro moves_generic_next_last_string [OF b]) auto
    with True show ?thesis by (simp add: reach_move)
  next
    case False
    from t have tv: "toks dp k (CHR '','' # tokens v)"
      and e: "structural_byte dp (Suc k + length (tokens v)) = Some CHR '']''"
      using toks_append [of dp k "CHR '','' # tokens v" "[CHR '']'']"] by simp_all
    have "moves b dp (if is_container v then generic_next else array_next)
            (Suc k + length (tokens v)) d generic_next (Suc (Suc k + length (tokens v))) (down d)"
      using moves_array_next_close [OF b e] moves_generic_next_close_array [OF b e] by simp
    with generic_next_element [OF b p ok False tv] have
      "reach b dp generic_next k d generic_next (Suc (Suc k + length (tokens v))) (down d)"
      by (rule reach_snoc)
    then show ?thesis by simp
  qed
  from A G show ?case by simp
next
  case (Cons w ws)
  then have p: "proper v" and ok: "value_ok b dp v"
    and rest: "\<forall>u \<in> set (w # ws). proper u \<and> value_ok b dp u"
    by simp_all
  let ?es = "sep (map tokens (w # ws))"
  from Cons.IH [OF rest]
  have IHA: "reach b dp array_value (Suc j) d generic_next (Suc (j + length ?es)) (down d)"
    if "no_slip False (w # ws)" and "toks dp j (?es @ [CHR '']''])" for j d
    using that by blast
  from Cons.IH [OF rest]
  have IHG: "reach b dp generic_next k d generic_next (Suc (Suc (k + length ?es))) (down d)"
    if "no_slip True (w # ws)" and "toks dp k (CHR '','' # ?es @ [CHR '']''])" for k d
    using that by blast
  obtain ts where es: "?es = first_token w # ts" using sep_tokens_Cons by blast
  have sep: "sep (map tokens (v # w # ws)) = tokens v @ CHR '','' # ?es" by simp
  have A: "reach b dp array_value (Suc j) d generic_next
             (Suc (j + length (sep (map tokens (v # w # ws))))) (down d)"
    if ns: "no_slip False (v # w # ws)"
      and t: "toks dp j (sep (map tokens (v # w # ws)) @ [CHR '']''])" for j d
  proof -
    let ?k = "j + length (tokens v)"
    from t have tv: "toks dp j (tokens v)"
      and tk: "toks dp ?k (CHR '','' # ?es @ [CHR '']''])"
      unfolding sep by (simp_all add: toks_append)
    note r1 = value_okA [OF ok tv, of d]
    show ?thesis
    proof (cases "simple v")
      case True
      with ns have ns': "no_slip False (w # ws)" by simp
      from tk es have "moves b dp array_next ?k d array_value (Suc (Suc ?k)) d"
        by (intro moves_array_next_comma) auto
      moreover from tk have "toks dp (Suc ?k) (?es @ [CHR '']''])" by simp
      from IHA [OF ns' this]
      have "reach b dp array_value (Suc (Suc ?k)) d generic_next (Suc (Suc ?k + length ?es)) (down d)"
        by simp
      ultimately have "reach b dp array_next ?k d generic_next (Suc (Suc ?k + length ?es)) (down d)"
        by (rule reach_step)
      with r1 True
      have "reach b dp array_value (Suc j) d generic_next (Suc (Suc ?k + length ?es)) (down d)"
        using reach_trans by fastforce
      then show ?thesis unfolding sep by (simp add: add.assoc)
    next
      case False
      with ns have ns': "no_slip True (w # ws)" by simp
      from IHG [OF ns' tk]
      have "reach b dp generic_next ?k d generic_next (Suc (Suc (?k + length ?es))) (down d)" .
      with r1 False
      have "reach b dp array_value (Suc j) d generic_next (Suc (Suc (?k + length ?es))) (down d)"
        using reach_trans by fastforce
      then show ?thesis unfolding sep by (simp add: add.assoc)
    qed
  qed
  have G: "reach b dp generic_next k d generic_next
             (Suc (Suc (k + length (sep (map tokens (v # w # ws)))))) (down d)"
    if ns: "no_slip True (v # w # ws)"
      and t: "toks dp k (CHR '','' # sep (map tokens (v # w # ws)) @ [CHR '']''])" for k d
  proof -
    let ?k = "Suc k + length (tokens v)"
    from ns have nstr: "v \<noteq> Prim (CHR 0x22)" by simp
    from t have tv: "toks dp k (CHR '','' # tokens v)"
      and tk: "toks dp ?k (CHR '','' # ?es @ [CHR '']''])"
      unfolding sep
      using toks_append [of dp k "CHR '','' # tokens v" "CHR '','' # ?es @ [CHR '']'']"]
      by simp_all
    note r1 = generic_next_element [OF b p ok nstr tv, of d]
    show ?thesis
    proof (cases "is_container v")
      case False
      with ns have ns': "no_slip False (w # ws)" by simp
      from tk es have "moves b dp array_next ?k d array_value (Suc (Suc ?k)) d"
        by (intro moves_array_next_comma) auto
      moreover from tk have "toks dp (Suc ?k) (?es @ [CHR '']''])" by simp
      from IHA [OF ns' this]
      have "reach b dp array_value (Suc (Suc ?k)) d generic_next (Suc (Suc ?k + length ?es)) (down d)"
        by simp
      ultimately have "reach b dp array_next ?k d generic_next (Suc (Suc ?k + length ?es)) (down d)"
        by (rule reach_step)
      with r1 False
      have "reach b dp generic_next k d generic_next (Suc (Suc ?k + length ?es)) (down d)"
        using reach_trans by fastforce
      then show ?thesis unfolding sep by (simp add: add.assoc)
    next
      case True
      with ns have ns': "no_slip True (w # ws)" by simp
      from IHG [OF ns' tk]
      have "reach b dp generic_next ?k d generic_next (Suc (Suc (?k + length ?es))) (down d)" .
      with r1 True
      have "reach b dp generic_next k d generic_next (Suc (Suc (?k + length ?es))) (down d)"
        using reach_trans by fastforce
      then show ?thesis unfolding sep by (simp add: add.assoc)
    qed
  qed
  from A G show ?case by simp
qed

text \<open>The fields of an object from the value of the first one, up to the closing brace.\<close>

lemma members_reach:
  assumes b: "follows up down b"
  shows "(\<forall>u \<in> set (v # vs). proper u \<and> value_ok b dp u) \<Longrightarrow>
     toks dp j (sep (map (\<lambda>v. CHR 0x22 # CHR '':'' # tokens v) (v # vs)) @ [CHR ''}'']) \<Longrightarrow>
     reach b dp object_value (Suc (Suc j)) d generic_next
       (Suc (j + length (sep (map (\<lambda>v. CHR 0x22 # CHR '':'' # tokens v) (v # vs))))) (down d)"
proof (induction vs arbitrary: v j)
  case Nil
  then have ok: "value_ok b dp v" by simp
  let ?k = "Suc (Suc j) + length (tokens v)"
  from Nil.prems(2) have tv: "toks dp (Suc (Suc j)) (tokens v)"
    and e: "structural_byte dp ?k = Some CHR ''}''"
    by (simp_all add: toks_append)
  have "moves b dp (if simple v then object_next else generic_next) ?k d generic_next (Suc ?k)
          (down d)"
    using moves_object_next_close [OF b e] moves_generic_next_close_object [OF b e] by simp
  with value_okO [OF ok tv]
  have "reach b dp object_value (Suc (Suc j)) d generic_next (Suc ?k) (down d)"
    by (rule reach_snoc)
  then show ?case by simp
next
  case (Cons w ws)
  then have ok: "value_ok b dp v"
    and rest: "\<forall>u \<in> set (w # ws). proper u \<and> value_ok b dp u"
    by simp_all
  let ?m = "\<lambda>v. CHR 0x22 # CHR '':'' # tokens v"
  let ?ms = "sep (map ?m (w # ws))"
  let ?k = "Suc (Suc j) + length (tokens v)"
  obtain ts where ms: "?ms = CHR 0x22 # CHR '':'' # ts" by (cases ws) auto
  have sep: "sep (map ?m (v # w # ws)) = CHR 0x22 # CHR '':'' # tokens v @ CHR '','' # ?ms"
    by simp
  from Cons.prems(2) have tv: "toks dp (Suc (Suc j)) (tokens v)"
    and tk: "toks dp ?k (CHR '','' # ?ms @ [CHR ''}''])"
    unfolding sep by (simp_all add: toks_append)
  from tk have tm: "toks dp (Suc ?k) (?ms @ [CHR ''}''])" by simp
  from tk ms have c: "structural_byte dp ?k = Some CHR '',''"
    and q: "structural_byte dp (Suc ?k) = Some (CHR 0x22)"
    and cl: "structural_byte dp (Suc (Suc ?k)) = Some CHR '':''"
    by simp_all
  have "reach b dp (if simple v then object_next else generic_next) ?k d
          object_value (Suc (Suc (Suc ?k))) d"
  proof (cases "simple v")
    case True
    have "reach b dp object_next ?k d object_value (Suc (Suc (Suc ?k))) d"
      using reach_step [OF moves_object_next_comma [OF c q]
          reach_move [OF moves_object_colon_colon [OF cl]]] .
    with True show ?thesis by simp
  next
    case False
    with moves_generic_next_key [OF b c q cl] show ?thesis by (simp add: reach_move)
  qed
  with value_okO [OF ok tv]
  have "reach b dp object_value (Suc (Suc j)) d object_value (Suc (Suc (Suc ?k))) d"
    by (rule reach_trans)
  from reach_trans [OF this Cons.IH [OF rest tm]]
  show ?case unfolding sep by (simp add: add.assoc)
qed

lemma value_ok_Arr_Cons:
  assumes b: "follows up down b" and el: "\<forall>u \<in> set (v # vs). proper u \<and> value_ok b dp u"
    and ns: "no_slip False (v # vs)"
  shows "value_ok b dp (Arr (v # vs))"
  unfolding value_ok_def
proof (intro allI impI)
  fix i d
  let ?es = "sep (map tokens (v # vs))"
  assume "toks dp i (tokens (Arr (v # vs)))"
  then have o: "structural_byte dp i = Some CHR ''[''" and t: "toks dp (Suc i) (?es @ [CHR '']''])"
    by simp_all
  obtain ts where es: "?es = first_token v # ts" using sep_tokens_Cons by blast
  from el have "proper v" by simp
  with t es proper_first_token [of v]
  have f: "structural_byte dp (Suc i) = Some (first_token v)" and n: "first_token v \<noteq> CHR '']''"
    by auto
  from elements_reach [OF b el] ns t
  have "reach b dp array_value (Suc (Suc i)) (up d) generic_next (Suc (Suc i + length ?es))
          (down (up d))"
    by blast
  then have r: "reach b dp array_value (Suc (Suc i)) (up d) generic_next
                  (Suc (Suc i + length ?es)) d"
    by (simp add: follows_inverse [OF b])
  have len: "i + length (tokens (Arr (v # vs))) = Suc (Suc i + length ?es)" by simp
  show "reach b dp array_value (Suc i) d
          (if simple (Arr (v # vs)) then array_next else generic_next)
          (i + length (tokens (Arr (v # vs)))) d
      \<and> reach b dp object_value i d
          (if simple (Arr (v # vs)) then object_next else generic_next)
          (i + length (tokens (Arr (v # vs)))) d
      \<and> (\<forall>vs'. Arr (v # vs) = Arr vs' \<longrightarrow>
            reach b dp generic_array_begin (Suc i) d generic_next
              (i + length (tokens (Arr (v # vs)))) d)
      \<and> (\<forall>vs'. Arr (v # vs) = Obj vs' \<longrightarrow>
            reach b dp generic_object_begin (Suc i) d generic_next
              (i + length (tokens (Arr (v # vs)))) d)"
    unfolding len
    using reach_step [OF moves_array_value_array [OF b o f n] r]
      reach_step [OF moves_object_value_array [OF b o f n] r]
      reach_step [OF moves_generic_array_begin_element [OF b f n] r]
    by simp
qed

lemma value_ok_Obj_Cons:
  assumes b: "follows up down b" and el: "\<forall>u \<in> set (v # vs). proper u \<and> value_ok b dp u"
  shows "value_ok b dp (Obj (v # vs))"
  unfolding value_ok_def
proof (intro allI impI)
  fix i d
  let ?ms = "sep (map (\<lambda>v. CHR 0x22 # CHR '':'' # tokens v) (v # vs))"
  assume "toks dp i (tokens (Obj (v # vs)))"
  then have o: "structural_byte dp i = Some CHR ''{''" and t: "toks dp (Suc i) (?ms @ [CHR ''}''])"
    by simp_all
  obtain ts where ms: "?ms = CHR 0x22 # CHR '':'' # ts" by (cases vs) auto
  with t have q: "structural_byte dp (Suc i) = Some (CHR 0x22)"
    and cl: "structural_byte dp (Suc (Suc i)) = Some CHR '':''"
    by simp_all
  from members_reach [OF b el t, of "up d"]
  have "reach b dp object_value (Suc (Suc (Suc i))) (up d) generic_next
          (Suc (Suc i + length ?ms)) d"
    by (simp add: follows_inverse [OF b])
  with moves_object_colon_colon [OF cl]
  have r: "reach b dp object_colon (Suc (Suc i)) (up d) generic_next (Suc (Suc i + length ?ms)) d"
    by (rule reach_step)
  have len: "i + length (tokens (Obj (v # vs))) = Suc (Suc i + length ?ms)" by simp
  show "reach b dp array_value (Suc i) d
          (if simple (Obj (v # vs)) then array_next else generic_next)
          (i + length (tokens (Obj (v # vs)))) d
      \<and> reach b dp object_value i d
          (if simple (Obj (v # vs)) then object_next else generic_next)
          (i + length (tokens (Obj (v # vs)))) d
      \<and> (\<forall>vs'. Obj (v # vs) = Arr vs' \<longrightarrow>
            reach b dp generic_array_begin (Suc i) d generic_next
              (i + length (tokens (Obj (v # vs)))) d)
      \<and> (\<forall>vs'. Obj (v # vs) = Obj vs' \<longrightarrow>
            reach b dp generic_object_begin (Suc i) d generic_next
              (i + length (tokens (Obj (v # vs)))) d)"
    unfolding len
    using reach_step [OF moves_array_value_object [OF b o q] r]
      reach_step [OF moves_object_value_object [OF b o q] r]
      reach_step [OF moves_generic_object_begin_key [OF b q] r]
    by simp
qed

text \<open>The driver walks every proper value and is back at the depth it started from.\<close>

lemma proper_value_ok: "follows up down b \<Longrightarrow> proper v \<Longrightarrow> value_ok b dp v"
proof (induction v)
  case (Prim c)
  then show ?case by (rule value_ok_Prim)
next
  case (Arr vs)
  show ?case
  proof (cases vs)
    case Nil
    with Arr.prems show ?thesis by (simp add: value_ok_Arr_Nil)
  next
    case (Cons u us)
    with Arr show ?thesis by (auto intro!: value_ok_Arr_Cons)
  qed
next
  case (Obj vs)
  show ?case
  proof (cases vs)
    case Nil
    with Obj.prems show ?thesis by (simp add: value_ok_Obj_Nil)
  next
    case (Cons u us)
    with Obj show ?thesis by (auto intro!: value_ok_Obj_Cons)
  qed
qed

text \<open>From \<open>document_end\<close> at depth 0 an accepting builder gets \<^verbatim>\<open>SUCCESS\<close> when streaming.\<close>

lemma reach_run:
  assumes "reach b dp l i d l' i' d'" and "l' = document_end" and "d' = 0"
    and "follows up down b" and "at_label dp l i d c"
  shows "\<exists>fuel c'. run fuel True b l c = Some (Return SUCCESS c')
           \<and> dom_parser (parser c') = dp\<lparr>next_structural_index := word_of_nat i'\<rparr>"
  using assms
proof (induction arbitrary: c rule: reach.induct)
  case (reach_refl l i d)
  then have "\<exists>c'. step True b l c = Return SUCCESS c'
      \<and> dom_parser (parser c') = dp\<lparr>next_structural_index := word_of_nat i\<rparr>"
    by (simp add: at_label_def proj_defs block_defs finish_def nesting_def
          follows_fst [OF reach_refl.prems(3)] follows_snd [OF reach_refl.prems(3)])
  then obtain c' where "run (Suc 0) True b l c = Some (Return SUCCESS c')"
    and "dom_parser (parser c') = dp\<lparr>next_structural_index := word_of_nat i\<rparr>"
    by auto
  then show ?case by blast
next
  case (reach_step l i d l1 i1 d1 l2 i2 d2)
  from reach_step.hyps(1) reach_step.prems(4)
  obtain c1 where s: "step True b l c = Goto l1 c1" and a: "at_label dp l1 i1 d1 c1"
    by (auto simp: moves_def)
  from reach_step.IH [OF reach_step.prems(1,2,3) a]
  obtain fuel c' where "run fuel True b l1 c1 = Some (Return SUCCESS c')"
    and d: "dom_parser (parser c') = dp\<lparr>next_structural_index := word_of_nat i2\<rparr>"
    by blast
  with s have "run (Suc fuel) True b l c = Some (Return SUCCESS c')" by simp
  with d show ?case by blast
qed

lemma residual_index:
  assumes "x < unat (n :: 32 word)"
  shows "word_of_nat x \<noteq> n"
proof
  assume "word_of_nat x = n"
  then have "unat n = x mod 2 ^ 32" by (auto simp: unat_of_nat)
  also have "\<dots> \<le> x" by (rule mod_less_eq_dividend)
  finally show False using assms by simp
qed

lemma parse_begin_first:
  assumes b: "follows up down b" and o: "structural_byte dp i = Some x"
    and c: "parser c = \<lparr>dom_parser = dp, next_structural = i, depth = 0\<rparr>"
    and n: "i < unat (n_structural_indexes dp)"
  shows "x = CHR ''['' \<Longrightarrow> \<exists>c1. parse_begin True b c = Goto generic_array_begin c1
            \<and> at_label dp generic_array_begin (Suc i) 0 c1"
    and "x = CHR ''{'' \<Longrightarrow> \<exists>c1. parse_begin True b c = Goto generic_object_begin c1
            \<and> at_label dp generic_object_begin (Suc i) 0 c1"
    and "x \<noteq> CHR ''['' \<Longrightarrow> x \<noteq> CHR ''{'' \<Longrightarrow>
           \<exists>c1. parse_begin True b c = Goto document_end c1
            \<and> at_label dp document_end (Suc i) 0 c1"
  using o c n
  by (auto simp: parse_begin_def at_end_def at_label_def structural_byte_def proj_defs nesting_def
        follows_fst [OF b] follows_snd [OF b] split: if_splits)

lemma parse_begin_value:
  assumes b: "follows up down b" and p: "proper v" and t: "toks dp i (tokens v @ [r])"
    and r: "\<not> is_container v \<or> r \<notin> {CHR '','', CHR '']'', CHR ''}''}"
    and c: "parser c = \<lparr>dom_parser = dp, next_structural = i, depth = 0\<rparr>"
    and n: "i < unat (n_structural_indexes dp)"
  shows "\<exists>l c1. parse_begin True b c = Goto l c1 \<and> at_label dp l (Suc i) 0 c1
           \<and> reach b dp l (Suc i) 0 document_end (i + length (tokens v)) 0"
proof -
  from t have tv: "toks dp i (tokens v)"
    and e: "structural_byte dp (i + length (tokens v)) = Some r"
    by (simp_all add: toks_append)
  have m: "moves b dp generic_next (i + length (tokens v)) 0 document_end
             (i + length (tokens v)) 0"
    if "is_container v"
  proof -
    from r that have "r \<noteq> CHR '',''" "r \<noteq> CHR '']''" "r \<noteq> CHR ''}''" by auto
    from moves_generic_next_document_end [OF e this] show ?thesis .
  qed
  show ?thesis
  proof (cases v)
    case (Prim x)
    from tv Prim have o: "structural_byte dp i = Some x" by simp
    from p Prim have "x \<noteq> CHR ''[''" "x \<noteq> CHR ''{''" by auto
    from parse_begin_first(3) [OF b o c n this]
    obtain c1 where "parse_begin True b c = Goto document_end c1"
      and "at_label dp document_end (Suc i) 0 c1"
      by blast
    moreover have "reach b dp document_end (Suc i) 0 document_end (i + length (tokens v)) 0"
      using Prim by (simp add: reach_refl)
    ultimately show ?thesis by blast
  next
    case (Arr vs)
    from tv Arr have o: "structural_byte dp i = Some CHR ''[''" by simp
    from parse_begin_first(1) [OF b o c n]
    obtain c1 where "parse_begin True b c = Goto generic_array_begin c1"
      and "at_label dp generic_array_begin (Suc i) 0 c1"
      by blast
    moreover
    have g: "reach b dp generic_array_begin (Suc i) 0 generic_next (i + length (tokens v)) 0"
      using value_okG_Arr [OF proper_value_ok [OF b p [unfolded Arr]] tv [unfolded Arr]]
      unfolding Arr .
    have mv: "moves b dp generic_next (i + length (tokens v)) 0 document_end
                (i + length (tokens v)) 0"
      using m Arr by simp
    note reach_snoc [OF g mv]
    ultimately show ?thesis by blast
  next
    case (Obj vs)
    from tv Obj have o: "structural_byte dp i = Some CHR ''{''" by simp
    from parse_begin_first(2) [OF b o c n]
    obtain c1 where "parse_begin True b c = Goto generic_object_begin c1"
      and "at_label dp generic_object_begin (Suc i) 0 c1"
      by blast
    moreover
    have g: "reach b dp generic_object_begin (Suc i) 0 generic_next (i + length (tokens v)) 0"
      using value_okG_Obj [OF proper_value_ok [OF b p [unfolded Obj]] tv [unfolded Obj]]
      unfolding Obj .
    have mv: "moves b dp generic_next (i + length (tokens v)) 0 document_end
                (i + length (tokens v)) 0"
      using m Obj by simp
    note reach_snoc [OF g mv]
    ultimately show ?thesis by blast
  qed
qed

lemma follows_keeps_iterator: "follows up down b \<Longrightarrow> keeps_iterator b"
  unfolding keeps_iterator_def by (simp add: follows_snd)

lemma accepts_noop_builder: "accepts noop_builder"
  unfolding accepts_def follows_def
  by (rule exI [of _ "\<lambda>d. d"], rule exI [of _ "\<lambda>d. d"])
     (simp add: noop_builder_def nesting_def)

lemma depth_change_nesting: "depth_change ev d = nesting (\<lambda>d. d + 1) (\<lambda>d. d - 1) ev d"
  by (cases ev) (simp_all add: nesting_def)

lemma accepts_depth_builder: "accepts depth_builder"
  unfolding accepts_def follows_def
  by (rule exI [of _ "\<lambda>d. d + 1"], rule exI [of _ "\<lambda>d. d - 1"])
     (simp add: depth_builder_def depth_change_nesting)

text \<open>
  Claim C2, as the code has it. The structurals from the cursor on are those of one proper
  JSON value followed by a residual structural \<open>r\<close>, which is none of \<^verbatim>\<open>,\<close> \<^verbatim>\<open>]\<close>
  \<^verbatim>\<open>}\<close> unless the value is a primitive; the builder accepts every callback, leaves
  the iterator alone and keeps the nesting depth (the builder that leaves the parser alone
  and the one that counts the open scopes both do); the parser is at depth 0. Then, with
  enough fuel, the streaming call returns \<^verbatim>\<open>SUCCESS\<close> for the first value and leaves
  \<^verbatim>\<open>next_structural_index\<close> right behind it, and the non-streaming call returns
  \<^verbatim>\<open>TAPE_ERROR\<close>.
\<close>

theorem value_then_residual_tokens:
  assumes "accepts b" and "proper v"
    and "toks dp i (tokens v @ [r])"
    and "\<not> is_container v \<or> r \<notin> {CHR '','', CHR '']'', CHR ''}''}"
    and "parser c = \<lparr>dom_parser = dp, next_structural = i, depth = 0\<rparr>"
    and "i + length (tokens v) < unat (n_structural_indexes dp)"
    and "structural_byte dp (unat (n_structural_indexes dp - 1)) \<noteq> None"
  shows "\<exists>fuel c1 c2. parse fuel True b c = Some (Return SUCCESS c1)
           \<and> next_structural_index (dom_parser (parser c1)) = word_of_nat (i + length (tokens v))
           \<and> parse fuel False b c = Some (Return TAPE_ERROR c2)"
proof -
  from assms(1) obtain up down where b: "follows up down b" unfolding accepts_def by blast
  from assms(6) have n: "i < unat (n_structural_indexes dp)" by simp
  from parse_begin_value [OF b assms(2-5) n]
  obtain l c0 where g: "parse_begin True b c = Goto l c0" and a: "at_label dp l (Suc i) 0 c0"
    and r: "reach b dp l (Suc i) 0 document_end (i + length (tokens v)) 0"
    by blast
  from reach_run [OF r refl refl b a]
  obtain fuel c1 where run: "run fuel True b l c0 = Some (Return SUCCESS c1)"
    and d: "dom_parser (parser c1)
              = dp\<lparr>next_structural_index := word_of_nat (i + length (tokens v))\<rparr>"
    by blast
  have x: "next_structural_index (dom_parser (parser c1)) = word_of_nat (i + length (tokens v))"
    and "n_structural_indexes (dom_parser (parser c1)) = n_structural_indexes dp"
    by (simp_all add: d)
  with residual_index [OF assms(6)]
  have ne: "next_structural_index (dom_parser (parser c1))
              \<noteq> n_structural_indexes (dom_parser (parser c1))"
    by metis
  have k: "keeps_iterator b" using b by (rule follows_keeps_iterator)
  have rd: "structural_byte (dom_parser (parser c))
              (unat (n_structural_indexes (dom_parser (parser c)) - 1)) \<noteq> None"
    using assms(5,7) by simp
  from parse_begin_mode [OF k rd g]
  have "\<exists>c2. parse fuel False b c = Some (Return TAPE_ERROR c2)"
  proof
    assume "parse_begin False b c = Goto l c0"
    with run_mode [OF run ne] show ?thesis by (simp add: parse_def)
  next
    assume "\<exists>c2. parse_begin False b c = Return TAPE_ERROR c2"
    then obtain c2 where "parse_begin False b c = Return TAPE_ERROR c2" ..
    then have "parse fuel False b c = Some (Return TAPE_ERROR c2)" by (simp add: parse_def)
    then show ?thesis ..
  qed
  then obtain c2 where f: "parse fuel False b c = Some (Return TAPE_ERROR c2)" ..
  have t: "parse fuel True b c = Some (Return SUCCESS c1)"
    using g run by (simp add: parse_def)
  from t x f show ?thesis by blast
qed

theorem value_then_residual_tokens_witness:
  "(\<exists>fuel c1 c2.
      parse_static fuel True depth_builder () doc_residual = Some (Return SUCCESS c1)
      \<and> next_structural_index (dom_parser (parser c1)) = 13
      \<and> parse_static fuel False depth_builder () doc_residual = Some (Return TAPE_ERROR c2))
   \<and> (\<exists>fuel c1 c2.
      parse_static fuel True noop_builder () doc_empty_array_string = Some (Return SUCCESS c1)
      \<and> next_structural_index (dom_parser (parser c1)) = 8
      \<and> parse_static fuel False noop_builder () doc_empty_array_string
          = Some (Return TAPE_ERROR c2))"
proof -
  let ?v = "Obj [Prim CHR ''1'', Arr [Prim CHR ''t'', Prim CHR ''n'']]"
  let ?c = "\<lparr>parser = new_parser False doc_residual, builder = (), value_p = 0, trace = []\<rparr>"
  have 2: "proper ?v" by simp
  have 3: "toks doc_residual 0 (tokens ?v @ [CHR ''7''])"
    by (simp add: doc_residual_def indexed_def structural_byte_def nth_append)
  have 4: "\<not> is_container ?v \<or> CHR ''7'' \<notin> {CHR '','', CHR '']'', CHR ''}''}" by simp
  have 5: "parser ?c = \<lparr>dom_parser = doc_residual, next_structural = 0, depth = 0\<rparr>"
    by (simp add: new_parser_def)
  have 6: "0 + length (tokens ?v) < unat (n_structural_indexes doc_residual)"
    by (simp add: doc_residual_def indexed_def)
  have 7: "structural_byte doc_residual (unat (n_structural_indexes doc_residual - 1)) \<noteq> None"
    by (simp add: doc_residual_def indexed_def structural_byte_def nth_append)
  have p: "new_parser True doc_residual = new_parser False doc_residual"
    by (simp add: new_parser_def doc_residual_def indexed_def)
  let ?w = "Arr [Arr [], Prim (CHR 0x22), Prim CHR ''2'']"
  let ?e = "\<lparr>parser = new_parser False doc_empty_array_string, builder = (), value_p = 0,
             trace = []\<rparr>"
  have w2: "proper ?w" by simp
  have w3: "toks doc_empty_array_string 0 (tokens ?w @ [CHR ''7''])"
    by (simp add: doc_empty_array_string_def indexed_def structural_byte_def nth_append)
  have w4: "\<not> is_container ?w \<or> CHR ''7'' \<notin> {CHR '','', CHR '']'', CHR ''}''}" by simp
  have w5: "parser ?e = \<lparr>dom_parser = doc_empty_array_string, next_structural = 0, depth = 0\<rparr>"
    by (simp add: new_parser_def)
  have w6: "0 + length (tokens ?w) < unat (n_structural_indexes doc_empty_array_string)"
    by (simp add: doc_empty_array_string_def indexed_def)
  have w7: "structural_byte doc_empty_array_string
              (unat (n_structural_indexes doc_empty_array_string - 1)) \<noteq> None"
    by (simp add: doc_empty_array_string_def indexed_def structural_byte_def nth_append)
  have q: "new_parser True doc_empty_array_string = new_parser False doc_empty_array_string"
    by (simp add: new_parser_def doc_empty_array_string_def indexed_def)
  from value_then_residual_tokens [OF accepts_depth_builder 2 3 4 5 6 7]
    value_then_residual_tokens [OF accepts_noop_builder w2 w3 w4 w5 w6 w7]
  show ?thesis unfolding parse_static_def p q by simp
qed

text \<open>
  An array that is left out: the string comes after a non-empty array and has an element
  after it. The driver rejects it.
\<close>

lemma slip_rejected:
  "\<not> proper (Arr [Arr [Prim CHR ''1''], Prim (CHR 0x22), Prim CHR ''2''])
   \<and> result (parse_static 20 True noop_builder () doc_array_string) = Some TAPE_ERROR
   \<and> result (parse_static 20 True depth_builder () doc_array_string) = Some TAPE_ERROR"
  by (simp add: eval_defs doc_array_string_def noop_builder_def depth_builder_def nth_append)

end
